theory Spec2Isabelle
  imports Complex_Main "HOL-Library.Sublist"
begin

section \<open>Python strings\<close>

text \<open>
  A Python \<^verbatim>\<open>str\<close> is a sequence of code points. The development covers the code
  points U+0000 to U+00FF: a \<^typ>\<open>char\<close> is read as the code point with that number
  (Latin-1), so a \<^typ>\<open>string\<close> has one element per Python character. Every character
  the source names lies in this range: the capital A with circumflex that
  \<^verbatim>\<open>parse_address\<close> removes is U+00C2, and the superscript two of the area marker is
  U+00B2. The character classes below are those of CPython 3 on that range.
\<close>

definition isdecimal_char :: "char \<Rightarrow> bool" where
  \<comment> \<open>\<^verbatim>\<open>str.isdecimal\<close> and the regex class \<^verbatim>\<open>\d\<close>: the digits 0 to 9.\<close>
  "isdecimal_char c \<longleftrightarrow> c \<in> set ''0123456789''"

definition isdigit_char :: "char \<Rightarrow> bool" where
  \<comment> \<open>\<^verbatim>\<open>str.isdigit\<close>: the decimal digits and the superscripts two, three and one.\<close>
  "isdigit_char c \<longleftrightarrow> isdecimal_char c \<or> c \<in> set [CHR 0xB2, CHR 0xB3, CHR 0xB9]"

definition isspace_char :: "char \<Rightarrow> bool" where
  \<comment> \<open>The whitespace of \<^verbatim>\<open>str.strip()\<close> and \<^verbatim>\<open>str.split()\<close>.\<close>
  "isspace_char c \<longleftrightarrow>
     c \<in> set [CHR 0x09, CHR 0x0A, CHR 0x0B, CHR 0x0C, CHR 0x0D, CHR 0x1C, CHR 0x1D,
              CHR 0x1E, CHR 0x1F, CHR 0x20, CHR 0x85, CHR 0xA0]"

definition isword_char :: "char \<Rightarrow> bool" where
  \<comment> \<open>The regex class \<^verbatim>\<open>\w\<close>: alphanumeric characters and the underscore.\<close>
  "isword_char c \<longleftrightarrow>
     (let n = (of_char c :: nat) in
        (48 \<le> n \<and> n \<le> 57) \<or> (65 \<le> n \<and> n \<le> 90) \<or> n = 95 \<or> (97 \<le> n \<and> n \<le> 122) \<or>
        n = 170 \<or> n = 178 \<or> n = 179 \<or> n = 181 \<or> n = 185 \<or> n = 186 \<or>
        (188 \<le> n \<and> n \<le> 190) \<or> (192 \<le> n \<and> n \<le> 214) \<or> (216 \<le> n \<and> n \<le> 246) \<or>
        248 \<le> n)"

definition isdigit :: "string \<Rightarrow> bool" where
  \<comment> \<open>\<^verbatim>\<open>s.isdigit()\<close>: at least one character, and all of them digits.\<close>
  "isdigit s \<longleftrightarrow> s \<noteq> [] \<and> list_all isdigit_char s"

definition strip :: "string \<Rightarrow> string" where
  \<comment> \<open>\<^verbatim>\<open>s.strip()\<close>\<close>
  "strip s = rev (dropWhile isspace_char (rev (dropWhile isspace_char s)))"

function py_split :: "string \<Rightarrow> string list" where
  \<comment> \<open>\<^verbatim>\<open>s.split()\<close>: the maximal runs of characters that are not whitespace.\<close>
  "py_split s =
     (case dropWhile isspace_char s of
        [] \<Rightarrow> []
      | c # cs \<Rightarrow> takeWhile (\<lambda>x. \<not> isspace_char x) (c # cs)
                 # py_split (dropWhile (\<lambda>x. \<not> isspace_char x) (c # cs)))"
  by pat_completeness auto
termination
proof (relation "measure length")
  show "wf (measure length)" by simp
next
  fix s :: string and c cs
  assume h: "dropWhile isspace_char s = c # cs"
  have nsp: "\<not> isspace_char c"
    using h by (metis hd_dropWhile list.distinct(1) list.sel(1))
  have "length (dropWhile (\<lambda>x. \<not> isspace_char x) (c # cs)) \<le> length cs"
    using nsp by (simp add: length_dropWhile_le)
  also have "length cs < length (dropWhile isspace_char s)"
    using h by simp
  also have "\<dots> \<le> length s"
    by (rule length_dropWhile_le)
  finally show "(dropWhile (\<lambda>x. \<not> isspace_char x) (c # cs), s) \<in> measure length"
    by simp
qed

declare py_split.simps [simp del]

fun contains :: "string \<Rightarrow> string \<Rightarrow> bool" where
  \<comment> \<open>\<^verbatim>\<open>sub in s\<close>\<close>
  "contains sub [] = (sub = [])"
| "contains sub (c # cs) = (prefix sub (c # cs) \<or> contains sub cs)"

function replace_scan :: "string \<Rightarrow> string \<Rightarrow> string \<Rightarrow> string" where
  "replace_scan old new [] = []"
| "replace_scan old new (c # cs) =
     (if old \<noteq> [] \<and> prefix old (c # cs)
      then new @ replace_scan old new (drop (length old) (c # cs))
      else c # replace_scan old new cs)"
  by pat_completeness auto
termination
  by (relation "measure (\<lambda>(old, new, s). length s)") (auto simp: neq_Nil_conv)

definition replace :: "string \<Rightarrow> string \<Rightarrow> string \<Rightarrow> string" where
  \<comment> \<open>\<^verbatim>\<open>s.replace(old, new)\<close>: every occurrence, left to right, without overlap;
      an empty \<^verbatim>\<open>old\<close> matches before every character and at the end.\<close>
  "replace old new s =
     (if old = [] then new @ concat (map (\<lambda>c. c # new) s) else replace_scan old new s)"

definition last_chars :: "nat \<Rightarrow> string \<Rightarrow> string" where
  \<comment> \<open>The slice \<^verbatim>\<open>s[-n:]\<close> for positive \<^verbatim>\<open>n\<close>: the whole string when it is shorter.\<close>
  "last_chars n s = drop (length s - n) s"

subsection \<open>\<^verbatim>\<open>int()\<close> on a string\<close>

datatype exception =
    ValueError string
      \<comment> \<open>\<^verbatim>\<open>invalid literal for int()\<close>, with the rejected text\<close>
  | ValueError_limit nat
      \<comment> \<open>the \<^verbatim>\<open>ValueError\<close> of a literal with more digits than the conversion limit, with
          the number of its digits\<close>
  | IndexError

fun int_digits :: "string \<Rightarrow> bool" where
  \<comment> \<open>Decimal digits, with single underscores allowed between two digits.\<close>
  "int_digits [] = False"
| "int_digits [c] = isdecimal_char c"
| "int_digits (c # d # cs) =
     (isdecimal_char c \<and> (if d = CHR ''_'' then int_digits cs else int_digits (d # cs)))"

definition int_space_char :: "char \<Rightarrow> bool" where
  \<comment> \<open>The whitespace that \<^verbatim>\<open>int()\<close> accepts around a literal: that of \<^verbatim>\<open>strip()\<close>
      without the four separators U+001C to U+001F.\<close>
  "int_space_char c \<longleftrightarrow>
     c \<in> set [CHR 0x09, CHR 0x0A, CHR 0x0B, CHR 0x0C, CHR 0x0D, CHR 0x20, CHR 0x85, CHR 0xA0]"

definition int_strip :: "string \<Rightarrow> string" where
  "int_strip s = rev (dropWhile int_space_char (rev (dropWhile int_space_char s)))"

definition digit_value :: "char \<Rightarrow> int" where
  "digit_value c = of_char c - 48"

definition decimal_value :: "string \<Rightarrow> int" where
  "decimal_value s = foldl (\<lambda>n c. 10 * n + digit_value c) 0 s"

definition int_max_str_digits :: nat where
  \<comment> \<open>\<^verbatim>\<open>sys.int_info.default_max_str_digits\<close>, the limit of CPython (3.11 and later) on the
      number of digits of a decimal literal that \<^verbatim>\<open>int()\<close> converts\<close>
  "int_max_str_digits = 4300"

definition py_int :: "string \<Rightarrow> exception + int" where
  \<comment> \<open>\<^verbatim>\<open>int(s)\<close>: surrounding whitespace and one sign are accepted. The digits are
      scanned first: a well-formed run of more than \<^verbatim>\<open>int_max_str_digits\<close> digits raises
      the \<^verbatim>\<open>ValueError\<close> of the limit, whatever follows it. Anything else that is not a
      decimal literal raises the \<^verbatim>\<open>ValueError\<close> that names the rejected text.\<close>
  "py_int s =
     (let t = int_strip s;
          neg = (case t of [] \<Rightarrow> False | c # r \<Rightarrow> c = CHR ''-'');
          u = (case t of [] \<Rightarrow> t | c # r \<Rightarrow> if c = CHR ''-'' \<or> c = CHR ''+'' then r else t);
          run = takeWhile (\<lambda>c. isdecimal_char c \<or> c = CHR ''_'') u;
          digits = length (filter isdecimal_char run)
      in if int_digits run \<and> int_max_str_digits < digits then Inl (ValueError_limit digits)
         else if int_digits u
         then Inr ((if neg then - 1 else 1) * decimal_value (filter (\<lambda>c. c \<noteq> CHR ''_'') u))
         else Inl (ValueError s))"

section \<open>The parsed document\<close>

text \<open>
  \<^verbatim>\<open>HTMLParser(html_content)\<close> and its CSS selectors belong to the selectolax library.
  The extractor reads five things from the parsed document, each through one fixed
  selector; the record holds what these selectors yield: the text of the first matching
  node, or \<open>None\<close> when \<^verbatim>\<open>css_first\<close> finds no node.
\<close>

record html =
  sale_info_elem :: "string option"
  price_elem :: "string option"
  address_elem :: "string option"
  features_wrapper :: "string list option"
    \<comment> \<open>the texts of the feature spans inside the wrapper, in document order\<close>
  sales_page_elem :: "(string \<times> string option) list option"
    \<comment> \<open>the attributes of the address anchor\<close>

section \<open>Regular expressions\<close>

text \<open>
  The three patterns of the source are sequences of greedy bounded repetitions of a
  character class, the word boundary \<^verbatim>\<open>\b\<close> and the end anchor \<^verbatim>\<open>$\<close>. The matcher
  backtracks as \<^verbatim>\<open>re\<close> does: a repetition first takes as many characters as it may and
  gives them back one at a time; \<^verbatim>\<open>search\<close> tries the start positions from left to
  right.
\<close>

datatype re_item = Repeat "char \<Rightarrow> bool" nat "nat option" | Word_boundary | End_anchor

definition at_word_boundary :: "string \<Rightarrow> nat \<Rightarrow> bool" where
  "at_word_boundary s i \<longleftrightarrow>
     (0 < i \<and> i \<le> length s \<and> isword_char (s ! (i - 1))) \<noteq> (i < length s \<and> isword_char (s ! i))"

definition at_end :: "string \<Rightarrow> nat \<Rightarrow> bool" where
  \<comment> \<open>\<^verbatim>\<open>$\<close> without \<^verbatim>\<open>MULTILINE\<close>: the end of the string, or just before a final newline.\<close>
  "at_end s i \<longleftrightarrow> i = length s \<or> (Suc i = length s \<and> s ! i = CHR 0x0A)"

fun first_some :: "'a option list \<Rightarrow> 'a option" where
  "first_some [] = None"
| "first_some (None # xs) = first_some xs"
| "first_some (Some x # xs) = Some x"

fun match_here :: "re_item list \<Rightarrow> string \<Rightarrow> nat \<Rightarrow> nat option" where
  \<comment> \<open>The end of the first match, in backtracking order, that starts at position \<open>i\<close>.\<close>
  "match_here [] s i = Some i"
| "match_here (Word_boundary # r) s i = (if at_word_boundary s i then match_here r s i else None)"
| "match_here (End_anchor # r) s i = (if at_end s i then match_here r s i else None)"
| "match_here (Repeat cls lo hi # r) s i =
     (let avail = length (takeWhile cls (drop i s));
          most = (case hi of None \<Rightarrow> avail | Some h \<Rightarrow> min h avail)
      in first_some (map (\<lambda>k. match_here r s (i + k)) (rev [lo ..< Suc most])))"

declare match_here.simps(4) [simp del]

definition re_search :: "re_item list \<Rightarrow> string \<Rightarrow> (nat \<times> nat) option" where
  \<comment> \<open>\<^verbatim>\<open>pattern.search(s)\<close>: the span of the leftmost match.\<close>
  "re_search re s =
     first_some (map (\<lambda>i. map_option (Pair i) (match_here re s i)) [0 ..< Suc (length s)])"

definition match_group :: "string \<Rightarrow> nat \<times> nat \<Rightarrow> string" where
  \<comment> \<open>\<^verbatim>\<open>match.group()\<close>\<close>
  "match_group s m = take (snd m - fst m) (drop (fst m) s)"

definition postcode_regex :: "re_item list" where
  \<comment> \<open>\<^verbatim>\<open>\b\d{4}\b$\<close>\<close>
  "postcode_regex =
     [Word_boundary, Repeat isdecimal_char 4 (Some 4), Word_boundary, End_anchor]"

definition sale_date_regex :: "re_item list" where
  \<comment> \<open>\<^verbatim>\<open>\d{1,2} \w{3} \d{4}\<close>\<close>
  "sale_date_regex =
     [Repeat isdecimal_char 1 (Some 2), Repeat (\<lambda>c. c = CHR '' '') 1 (Some 1),
      Repeat isword_char 3 (Some 3), Repeat (\<lambda>c. c = CHR '' '') 1 (Some 1),
      Repeat isdecimal_char 4 (Some 4)]"

definition digits_regex :: "re_item list" where
  \<comment> \<open>\<^verbatim>\<open>\d+\<close>\<close>
  "digits_regex = [Repeat isdecimal_char 1 None]"

section \<open>Address and postcode\<close>

definition parse_address :: "string \<Rightarrow> string \<times> string option" where
  "parse_address address0 =
     (let address = replace [CHR 0xC2] [] address0;
          last_four_chars = last_chars 4 address;
          postcode_match = re_search postcode_regex address
      in (address,
          if isdigit last_four_chars then Some last_four_chars
          else (case postcode_match of
                  Some m \<Rightarrow> Some (match_group address m)
                | None \<Rightarrow> None)))"

section \<open>Sale information\<close>

definition parse_sale_info :: "html \<Rightarrow> string option \<times> string option" where
  "parse_sale_info html =
     (case sale_info_elem html of
        None \<Rightarrow> (None, None)
      | Some text \<Rightarrow>
          (let sale_info_text = strip text
           in case re_search sale_date_regex sale_info_text of
                Some m \<Rightarrow>
                  (let sale_date = match_group sale_info_text m
                   in (Some (strip (replace sale_date [] sale_info_text)), Some sale_date))
              | None \<Rightarrow> (Some sale_info_text, None)))"

section \<open>Price\<close>

definition parse_price :: "html \<Rightarrow> exception + int option" where
  "parse_price html =
     (case price_elem html of
        Some text \<Rightarrow>
          (let price_text = strip (replace '','' [] (replace ''$'' [] text))
           in if isdigit price_text
              then (case py_int price_text of Inl e \<Rightarrow> Inl e | Inr n \<Rightarrow> Inr (Some n))
              else Inr None)
      | None \<Rightarrow> Inr None)"

section \<open>Property details\<close>

definition leading_int :: "string \<Rightarrow> exception + int option" where
  \<comment> \<open>\<^verbatim>\<open>int(t.split()[0]) if t.split()[0].isdigit() else None\<close>; the condition is
      evaluated first, and indexing an empty list raises \<^verbatim>\<open>IndexError\<close>.\<close>
  "leading_int feature_text =
     (case py_split feature_text of
        [] \<Rightarrow> Inl IndexError
      | tok # _ \<Rightarrow>
          if isdigit tok
          then (case py_int tok of Inl e \<Rightarrow> Inl e | Inr n \<Rightarrow> Inr (Some n))
          else Inr None)"

definition area_marker :: string where
  \<comment> \<open>the letter m followed by the superscript two\<close>
  "area_marker = [CHR ''m'', CHR 0xB2]"

type_synonym details = "int option \<times> int option \<times> int option \<times> int option"
  \<comment> \<open>bedrooms, baths, parking, area\<close>

definition feature_step :: "string \<Rightarrow> details \<Rightarrow> exception + details" where
  \<comment> \<open>The body of the loop over the feature elements.\<close>
  "feature_step feature_text d =
     (case d of (bedrooms, baths, parking, area) \<Rightarrow>
        if contains ''Beds'' feature_text then
          (case leading_int feature_text of
             Inl e \<Rightarrow> Inl e | Inr v \<Rightarrow> Inr (v, baths, parking, area))
        else if contains ''Bath'' feature_text then
          (case leading_int feature_text of
             Inl e \<Rightarrow> Inl e | Inr v \<Rightarrow> Inr (bedrooms, v, parking, area))
        else if contains ''Parking'' feature_text then
          (case leading_int feature_text of
             Inl e \<Rightarrow> Inl e | Inr v \<Rightarrow> Inr (bedrooms, baths, v, area))
        else if contains area_marker feature_text then
          (case re_search digits_regex feature_text of
             Some m \<Rightarrow>
               (case py_int (match_group feature_text m) of
                  Inl e \<Rightarrow> Inl e | Inr n \<Rightarrow> Inr (bedrooms, baths, parking, Some n))
           | None \<Rightarrow> Inr (bedrooms, baths, parking, None))
        else Inr d)"

fun feature_loop :: "string list \<Rightarrow> details \<Rightarrow> exception + details" where
  "feature_loop [] d = Inr d"
| "feature_loop (feature # rest) d =
     (case feature_step feature d of Inl e \<Rightarrow> Inl e | Inr d' \<Rightarrow> feature_loop rest d')"

definition parse_property_details :: "html \<Rightarrow> exception + details" where
  "parse_property_details html =
     (let feature_elements = (case features_wrapper html of Some fs \<Rightarrow> fs | None \<Rightarrow> [])
      in feature_loop feature_elements (None, None, None, None))"

section \<open>Detail page reference\<close>

definition parse_sales_page :: "html \<Rightarrow> string option" where
  \<comment> \<open>\<^verbatim>\<open>attributes.get("href", "N/A")\<close>: an attribute without a value is \<open>None\<close>.\<close>
  "parse_sales_page html =
     (case sales_page_elem html of
        Some attributes \<Rightarrow>
          (case map_of attributes ''href'' of Some v \<Rightarrow> v | None \<Rightarrow> Some ''N/A'')
      | None \<Rightarrow> None)"

section \<open>The whole record\<close>

record extracted_data =
  sale_type :: "string option"
  sale_date :: "string option"
  price :: "int option"
  address :: "string option"
  postcode :: "string option"
  bedrooms :: "int option"
  baths :: "int option"
  parking :: "int option"
  area :: "int option"
  sales_page_href :: "string option"

definition default_data :: extracted_data where
  "default_data =
     \<lparr>sale_type = None, sale_date = None, price = None, address = None, postcode = None,
      bedrooms = None, baths = None, parking = None, area = None, sales_page_href = None\<rparr>"

datatype printed = Error_parsing_HTML exception
  \<comment> \<open>the line that the handler of \<^verbatim>\<open>parse_html\<close> prints, with the exception\<close>

definition parse_html_body :: "html \<Rightarrow> extracted_data \<times> printed list" where
  \<comment> \<open>The body of \<^verbatim>\<open>parse_html\<close> once the document is parsed: the guarded block,
      whose assignments made before an exception stay in the dictionary, and its handler.\<close>
  "parse_html_body html =
     (let (st, sd) = parse_sale_info html;
          d1 = default_data\<lparr>sale_type := st, sale_date := sd\<rparr>
      in case parse_price html of
           Inl e \<Rightarrow> (d1, [Error_parsing_HTML e])
         | Inr p \<Rightarrow>
             (let d2 = d1\<lparr>price := p\<rparr>;
                  d3 = (case address_elem html of
                          Some a \<Rightarrow>
                            (let (a', pc) = parse_address a
                             in d2\<lparr>address := Some a', postcode := pc\<rparr>)
                        | None \<Rightarrow> d2)
              in case parse_property_details html of
                   Inl e \<Rightarrow> (d3, [Error_parsing_HTML e])
                 | Inr (b, ba, pk, ar) \<Rightarrow>
                     (d3\<lparr>bedrooms := b, baths := ba, parking := pk, area := ar,
                         sales_page_href := parse_sales_page html\<rparr>, [])))"

definition parse_html :: "(string \<Rightarrow> html) \<Rightarrow> string \<Rightarrow> extracted_data \<times> printed list" where
  \<comment> \<open>The first argument stands for selectolax's \<^verbatim>\<open>HTMLParser\<close>, which the source
      calls before the \<^verbatim>\<open>try\<close> block.\<close>
  "parse_html HTMLParser html_content = parse_html_body (HTMLParser html_content)"

section \<open>The fetch client\<close>

text \<open>
  The HTTP client belongs to the httpx library. A request is a step of a state machine:
  \<open>http_get\<close> takes the state of the client (and of the network behind it) and a URL and
  gives the outcome of \<^verbatim>\<open>client.get(url)\<close> followed by \<^verbatim>\<open>raise_for_status()\<close>, with
  the next state. The outcome is the body of a successful response or one of the two
  exceptions that \<^verbatim>\<open>fetch_property_data\<close> catches, with its message.
\<close>

datatype get_result = Response string | RequestError string | HTTPStatusError string

datatype message =
    Retry nat string real string
      \<comment> \<open>attempt, URL, wait and exception of the retry line\<close>
  | Failed string int
      \<comment> \<open>URL and retry count of the line printed when the attempts are used up\<close>
  | No_more_matches string int int int int
      \<comment> \<open>postcode, bedrooms, bathrooms, parking and page of the no-results line\<close>

datatype event = Request string get_result | Printed message | Sleep real

text \<open>
  The world a call runs in: the state of the client, the values that the coming calls
  of \<^verbatim>\<open>random()\<close> return, and the history of requests, printed lines and sleeps so far.
  Delays are real numbers here, where the source computes with floating point.
\<close>

record 'c world =
  client :: 'c
  rng :: "nat \<Rightarrow> real"
  history :: "event list"

definition emit :: "event \<Rightarrow> 'c world \<Rightarrow> 'c world" where
  "emit e w = w\<lparr>history := history w @ [e]\<rparr>"

definition backoff :: "string \<Rightarrow> nat \<Rightarrow> string \<Rightarrow> 'c world \<Rightarrow> 'c world" where
  \<comment> \<open>The handler's work once the attempt counter is incremented: the wait
      \<^verbatim>\<open>(2**attempt) + (random() * 0.1)\<close>, the retry line, the sleep.\<close>
  "backoff url attempt exc w =
     (let wait = 2 ^ attempt + rng w 0 * (1 / 10)
      in emit (Sleep wait)
           (emit (Printed (Retry attempt url wait exc)) (w\<lparr>rng := (\<lambda>n. rng w (Suc n))\<rparr>)))"

function fetch_loop ::
  "('c \<Rightarrow> string \<Rightarrow> get_result \<times> 'c) \<Rightarrow> string \<Rightarrow> int \<Rightarrow> nat \<Rightarrow> 'c world
     \<Rightarrow> string option \<times> 'c world" where
  "fetch_loop http_get url retries attempt w =
     (if int attempt < retries then
        (case http_get (client w) url of
           (result, c) \<Rightarrow>
             (case result of
                Response text \<Rightarrow> (Some text, emit (Request url result) (w\<lparr>client := c\<rparr>))
              | RequestError exc \<Rightarrow>
                  fetch_loop http_get url retries (Suc attempt)
                    (backoff url (Suc attempt) exc (emit (Request url result) (w\<lparr>client := c\<rparr>)))
              | HTTPStatusError exc \<Rightarrow>
                  fetch_loop http_get url retries (Suc attempt)
                    (backoff url (Suc attempt) exc (emit (Request url result) (w\<lparr>client := c\<rparr>)))))
      else (None, emit (Printed (Failed url retries)) w))"
  by pat_completeness auto
termination
  by (relation "measure (\<lambda>(http_get, url, retries, attempt, w). nat (retries - int attempt))") auto

declare fetch_loop.simps [simp del]

definition fetch_property_data ::
  "('c \<Rightarrow> string \<Rightarrow> get_result \<times> 'c) \<Rightarrow> string \<Rightarrow> int \<Rightarrow> 'c world \<Rightarrow> string option \<times> 'c world" where
  "fetch_property_data http_get url retries w = fetch_loop http_get url retries 0 w"

definition default_retries :: int where
  \<comment> \<open>the default of the parameter \<^verbatim>\<open>retries\<close>\<close>
  "default_retries = 5"

section \<open>The listing enumerator\<close>

fun str_nat :: "nat \<Rightarrow> string" where
  "str_nat n =
     (if n < 10 then [char_of (48 + n)] else str_nat (n div 10) @ [char_of (48 + n mod 10)])"

definition str_int :: "int \<Rightarrow> string" where
  \<comment> \<open>how an f-string renders an integer\<close>
  "str_int i = (if i < 0 then CHR ''-'' # str_nat (nat (- i)) else str_nat (nat i))"

definition search_url :: "string \<Rightarrow> int \<Rightarrow> int \<Rightarrow> int \<Rightarrow> int \<Rightarrow> string" where
  \<comment> \<open>\<open>pcode\<close> is the text that the f-string inserts for \<^verbatim>\<open>postcode\<close>\<close>
  "search_url pcode beds bath park page =
     ''https://www.domain.com.au/sold-listings/?ptype=free-standing&bedrooms='' @ str_int beds
     @ ''&bathrooms='' @ str_int bath @ ''&carspaces='' @ str_int park
     @ ''&ssubs=0&postcode='' @ pcode @ ''&page='' @ str_int page"

definition no_exact_matches :: string where
  "no_exact_matches = ''No exact matches''"

fun page_loop ::
  "('c \<Rightarrow> string \<Rightarrow> get_result \<times> 'c) \<Rightarrow> string \<Rightarrow> int \<Rightarrow> int \<Rightarrow> int \<Rightarrow> int list
     \<Rightarrow> 'c world \<times> string list \<Rightarrow> 'c world \<times> string list" where
  \<comment> \<open>The loop over the pages of one combination, on the pages still to come. The flag
      \<^verbatim>\<open>found_no_matches\<close> is set only just before \<^verbatim>\<open>break\<close>, so its test at the head
      of the loop never succeeds; leaving the recursion is that \<^verbatim>\<open>break\<close>.\<close>
  "page_loop http_get pcode beds bath park [] st = st"
| "page_loop http_get pcode beds bath park (page # pages) (w, property_html) =
     (case fetch_property_data http_get (search_url pcode beds bath park page) default_retries w of
        (response_text, w1) \<Rightarrow>
          (case response_text of
             None \<Rightarrow> page_loop http_get pcode beds bath park pages (w1, property_html)
           | Some text \<Rightarrow>
               if text = [] then page_loop http_get pcode beds bath park pages (w1, property_html)
               else if contains no_exact_matches text
               then (emit (Printed (No_more_matches pcode beds bath park page)) w1, property_html)
               else page_loop http_get pcode beds bath park pages (w1, property_html @ [text])))"

definition fetch_postcode_data ::
  "('c \<Rightarrow> string \<Rightarrow> get_result \<times> 'c) \<Rightarrow> string \<Rightarrow> 'c world \<Rightarrow> string list \<times> 'c world" where
  "fetch_postcode_data http_get pcode w =
     (case fold (\<lambda>beds. fold (\<lambda>bath. fold (\<lambda>park.
                  page_loop http_get pcode beds bath park [1..49]) [0..5]) [0..5]) [1..5] (w, [])
      of (w', property_html) \<Rightarrow> (property_html, w'))"

subsection \<open>Reading a history\<close>

fun requests :: "event list \<Rightarrow> string list" where
  \<comment> \<open>the URLs requested, in order\<close>
  "requests [] = []"
| "requests (Request url r # es) = url # requests es"
| "requests (e # es) = requests es"

fun bodies :: "event list \<Rightarrow> string list" where
  \<comment> \<open>the bodies of the successful responses, in order\<close>
  "bodies [] = []"
| "bodies (Request url (Response text) # es) = text # bodies es"
| "bodies (e # es) = bodies es"

fun sleeps :: "event list \<Rightarrow> real list" where
  "sleeps [] = []"
| "sleeps (Sleep t # es) = t # sleeps es"
| "sleeps (e # es) = sleeps es"

definition keeps :: "string \<Rightarrow> bool" where
  \<comment> \<open>the bodies that the page loop appends: not empty and without the no-results text\<close>
  "keeps body \<longleftrightarrow> body \<noteq> [] \<and> \<not> contains no_exact_matches body"

section \<open>Notions used to state the claims\<close>

definition first_digit_run :: "string \<Rightarrow> string" where
  \<comment> \<open>the first maximal run of decimal digits of a text, empty when it has no digit\<close>
  "first_digit_run t = takeWhile isdecimal_char (dropWhile (\<lambda>c. \<not> isdecimal_char c) t)"

definition is_date :: "string \<Rightarrow> bool" where
  \<comment> \<open>the shape \<^verbatim>\<open>D[D] MMM YYYY\<close> as the pattern of the source reads it: one or two
      decimal digits, a space, three word characters, a space, four decimal digits\<close>
  "is_date d \<longleftrightarrow>
     (\<exists>ds m y. d = ds @ '' '' @ m @ '' '' @ y
        \<and> (length ds = 1 \<or> length ds = 2) \<and> list_all isdecimal_char ds
        \<and> length m = 3 \<and> list_all isword_char m
        \<and> length y = 4 \<and> list_all isdecimal_char y)"

definition month_abbreviations :: "string list" where
  \<comment> \<open>the month abbreviations that the letters \<^verbatim>\<open>MMM\<close> of the claim stand for\<close>
  "month_abbreviations =
     [''Jan'', ''Feb'', ''Mar'', ''Apr'', ''May'', ''Jun'',
      ''Jul'', ''Aug'', ''Sep'', ''Oct'', ''Nov'', ''Dec'']"

definition combinations :: "(int \<times> int \<times> int) list" where
  \<comment> \<open>the combinations of bedrooms, bathrooms and parking spaces, in the order in which the
      three loops of \<^verbatim>\<open>fetch_postcode_data\<close> go through them\<close>
  "combinations =
     concat (map (\<lambda>beds. concat (map (\<lambda>bath. map (\<lambda>park. (beds, bath, park)) [0..5]) [0..5])) [1..5])"

datatype field = Bedrooms | Baths | Parking | Area

definition feature_field :: "string \<Rightarrow> field option" where
  \<comment> \<open>the field of the first keyword, in the order of the tests, that a chip contains\<close>
  "feature_field t =
     (if contains ''Beds'' t then Some Bedrooms
      else if contains ''Bath'' t then Some Baths
      else if contains ''Parking'' t then Some Parking
      else if contains area_marker t then Some Area
      else None)"

fun get_field :: "field \<Rightarrow> details \<Rightarrow> int option" where
  "get_field Bedrooms (b, ba, p, a) = b"
| "get_field Baths (b, ba, p, a) = ba"
| "get_field Parking (b, ba, p, a) = p"
| "get_field Area (b, ba, p, a) = a"

fun set_field :: "field \<Rightarrow> int option \<Rightarrow> details \<Rightarrow> details" where
  "set_field Bedrooms v (b, ba, p, a) = (v, ba, p, a)"
| "set_field Baths v (b, ba, p, a) = (b, v, p, a)"
| "set_field Parking v (b, ba, p, a) = (b, ba, v, a)"
| "set_field Area v (b, ba, p, a) = (b, ba, p, v)"

definition feature_value :: "field \<Rightarrow> string \<Rightarrow> exception + int option" where
  \<comment> \<open>the value that a chip gives to its field\<close>
  "feature_value f t =
     (if f = Area
      then (case re_search digits_regex t of
              Some m \<Rightarrow> (case py_int (match_group t m) of Inl e \<Rightarrow> Inl e | Inr n \<Rightarrow> Inr (Some n))
            | None \<Rightarrow> Inr None)
      else leading_int t)"

section \<open>Sample inputs\<close>


definition quiet_world :: "'c \<Rightarrow> 'c world" where
  "quiet_world c = \<lparr>client = c, rng = (\<lambda>n. 1 / 2), history = []\<rparr>"

definition no_results_page :: string where
  "no_results_page = ''<p>No exact matches</p>''"

definition marker_get :: "unit \<Rightarrow> string \<Rightarrow> get_result \<times> unit" where
  \<comment> \<open>a site that answers every request with the no-results page\<close>
  "marker_get c url = (Response no_results_page, c)"

definition listing_page :: string where
  "listing_page = ''<h2>12 Smith St, Ultimo 2007</h2>''"

definition three_page_get :: "unit \<Rightarrow> string \<Rightarrow> get_result \<times> unit" where
  \<comment> \<open>a site where every search has one page of listings: page 1 is that page, every
      request for page 2 times out, and every other page is the no-results page\<close>
  "three_page_get c url =
     (if suffix ''&page=1'' url then (Response listing_page, c)
      else if suffix ''&page=2'' url then (RequestError ''timed out'', c)
      else (Response no_results_page, c))"

definition superscript_price_card :: html where
  \<comment> \<open>a card whose price text is \<^verbatim>\<open>$1,250\<close> followed by a superscript two\<close>
  "superscript_price_card =
     \<lparr>sale_info_elem = Some ''Sold 12 Jan 2023'',
      price_elem = Some (''$1,250'' @ [CHR 0xB2]),
      address_elem = Some ''12 Smith St, Ultimo 2007'',
      features_wrapper = Some [''3 Beds'', ''2 Bath''],
      sales_page_elem = Some [(''href'', Some ''/property/12-smith-st'')]\<rparr>"

definition listing_card :: html where
  "listing_card =
     \<lparr>sale_info_elem = Some ''Sold 12 Jan 2023'',
      price_elem = Some ''$1,250,000'',
      address_elem = Some ''12 Smith St, Ultimo 2007'',
      features_wrapper = Some [''3 Beds'', ''2 Bath'', ''1 Parking''],
      sales_page_elem = Some [(''href'', Some ''/property/12-smith-st'')]\<rparr>"

definition card_parser :: "string \<Rightarrow> html" where
  \<comment> \<open>a parser that finds that card in every markup\<close>
  "card_parser html_content = superscript_price_card"

section \<open>Facts about the string operations\<close>

lemma isdigit_char_not_space: "isdigit_char c \<Longrightarrow> \<not> isspace_char c"
  by (auto simp: isdigit_char_def isdecimal_char_def isspace_char_def)

lemma isdigit_char_not_sign: "isdigit_char c \<Longrightarrow> c \<noteq> CHR ''-'' \<and> c \<noteq> CHR ''+'' \<and> c \<noteq> CHR ''_''"
  by (auto simp: isdigit_char_def isdecimal_char_def)

lemma isdecimal_imp_isdigit_char: "isdecimal_char c \<Longrightarrow> isdigit_char c"
  by (simp add: isdigit_char_def)

lemma trim_no_space_ends:
  assumes "s \<noteq> []" "\<not> P (hd s)" "\<not> P (last s)"
  shows "rev (dropWhile P (rev (dropWhile P s))) = s"
proof -
  have a: "dropWhile P s = s"
    using assms(1,2) by (cases s) simp_all
  have "rev s \<noteq> []" "\<not> P (hd (rev s))"
    using assms(1,3) by (simp_all add: hd_rev)
  then have b: "dropWhile P (rev s) = rev s"
    by (cases "rev s") simp_all
  show ?thesis by (simp add: a b)
qed

lemma isdigit_char_not_int_space: "isdigit_char c \<Longrightarrow> \<not> int_space_char c"
  by (auto simp: isdigit_char_def isdecimal_char_def int_space_char_def)

lemma isdigit_ends:
  assumes "isdigit s"
  shows "s \<noteq> []" and "isdigit_char (hd s)" and "isdigit_char (last s)"
proof -
  show "s \<noteq> []"
    using assms by (simp add: isdigit_def)
  then have "hd s \<in> set s" "last s \<in> set s"
    by simp_all
  then show "isdigit_char (hd s)" "isdigit_char (last s)"
    using assms by (auto simp: isdigit_def list_all_iff)
qed

lemma strip_isdigit: "isdigit s \<Longrightarrow> strip s = s"
  unfolding strip_def
  by (rule trim_no_space_ends) (auto dest: isdigit_ends isdigit_char_not_space)

lemma int_strip_isdigit: "isdigit s \<Longrightarrow> int_strip s = s"
  unfolding int_strip_def
  by (rule trim_no_space_ends) (auto dest: isdigit_ends isdigit_char_not_int_space)

lemma int_digits_iff_decimal:
  "s \<noteq> [] \<Longrightarrow> CHR ''_'' \<notin> set s \<Longrightarrow> int_digits s \<longleftrightarrow> list_all isdecimal_char s"
  by (induction s rule: int_digits.induct) auto

lemma takeWhile_decimal_or_underscore:
  "CHR ''_'' \<notin> set s \<Longrightarrow>
     takeWhile (\<lambda>c. isdecimal_char c \<or> c = CHR ''_'') s = takeWhile isdecimal_char s"
  by (rule takeWhile_cong) auto

lemma filter_decimal_run: "filter isdecimal_char (takeWhile isdecimal_char s) = takeWhile isdecimal_char s"
  by (simp add: filter_id_conv) (meson set_takeWhileD)

lemma int_digits_decimal_run:
  "int_digits (takeWhile isdecimal_char s) \<longleftrightarrow> takeWhile isdecimal_char s \<noteq> []"
proof (cases "takeWhile isdecimal_char s = []")
  case True
  then show ?thesis by simp
next
  case False
  have all: "list_all isdecimal_char (takeWhile isdecimal_char s)"
    by (auto simp: list_all_iff dest: set_takeWhileD)
  then have "CHR ''_'' \<notin> set (takeWhile isdecimal_char s)"
    by (auto simp: list_all_iff isdecimal_char_def)
  then show ?thesis
    using False all int_digits_iff_decimal by blast
qed

lemma py_int_isdigit:
  assumes "isdigit s"
  shows "py_int s =
     (if int_max_str_digits < length (takeWhile isdecimal_char s)
      then Inl (ValueError_limit (length (takeWhile isdecimal_char s)))
      else if list_all isdecimal_char s then Inr (decimal_value s) else Inl (ValueError s))"
proof -
  from assms obtain c r where s: "s = c # r"
    by (cases s) (auto simp: isdigit_def)
  have all: "\<forall>x\<in>set s. isdigit_char x"
    using assms by (simp add: isdigit_def list_all_iff)
  have c: "c \<noteq> CHR ''-''" "c \<noteq> CHR ''+''"
    using all s isdigit_char_not_sign by auto
  have nu: "CHR ''_'' \<notin> set s"
    using all isdigit_char_not_sign by blast
  then have f: "filter (\<lambda>x. x \<noteq> CHR ''_'') s = s"
    by (auto simp: filter_id_conv)
  have st: "int_strip s = s"
    by (rule int_strip_isdigit [OF assms])
  have u: "(case s of [] \<Rightarrow> s | c # r \<Rightarrow> if c = CHR ''-'' \<or> c = CHR ''+'' then r else s) = s"
    using c by (simp add: s)
  have run: "takeWhile (\<lambda>c. isdecimal_char c \<or> c = CHR ''_'') s = takeWhile isdecimal_char s"
    using nu by (rule takeWhile_decimal_or_underscore)
  have d: "int_digits s \<longleftrightarrow> list_all isdecimal_char s"
    using int_digits_iff_decimal [of s] nu s by blast
  have long: "int_digits (takeWhile isdecimal_char s) \<and> n < length (takeWhile isdecimal_char s)
      \<longleftrightarrow> n < length (takeWhile isdecimal_char s)" for n
    by (auto simp: int_digits_decimal_run)
  have neg: "(case s of [] \<Rightarrow> False | c # r \<Rightarrow> c = CHR ''-'') = False"
    using c by (simp add: s)
  show ?thesis
    unfolding py_int_def st u neg Let_def run filter_decimal_run long f d by simp
qed

lemma py_int_decimal:
  assumes "s \<noteq> []" and "list_all isdecimal_char s" and "length s \<le> int_max_str_digits"
  shows "py_int s = Inr (decimal_value s)"
proof -
  have d: "isdigit s"
    using assms(1,2) by (auto simp: isdigit_def list_all_iff isdecimal_imp_isdigit_char)
  have tw: "takeWhile isdecimal_char s = s"
    using assms(2) by (simp add: takeWhile_eq_all_conv list_all_iff)
  show ?thesis
    unfolding py_int_isdigit [OF d] tw using assms(2,3) by simp
qed

lemma py_int_decimal_long:
  assumes "list_all isdecimal_char s" and "int_max_str_digits < length s"
  shows "py_int s = Inl (ValueError_limit (length s))"
proof -
  have "s \<noteq> []"
    using assms(2) by auto
  then have d: "isdigit s"
    using assms(1) by (auto simp: isdigit_def list_all_iff isdecimal_imp_isdigit_char)
  have tw: "takeWhile isdecimal_char s = s"
    using assms(1) by (simp add: takeWhile_eq_all_conv list_all_iff)
  show ?thesis
    unfolding py_int_isdigit [OF d] tw using assms(2) by simp
qed

section \<open>Price extraction\<close>

lemma parse_price_absent: "price_elem html = None \<Longrightarrow> parse_price html = Inr None"
  by (simp add: parse_price_def)

lemma parse_price_decimal:
  assumes "price_elem html = Some text"
    and "residue = strip (replace '','' [] (replace ''$'' [] text))"
    and "residue \<noteq> []" and "list_all isdecimal_char residue"
    and "length residue \<le> int_max_str_digits"
  shows "parse_price html = Inr (Some (decimal_value residue))"
proof -
  have "isdigit residue"
    using assms(3,4) by (auto simp: isdigit_def list_all_iff isdecimal_imp_isdigit_char)
  then show ?thesis
    using assms by (simp add: parse_price_def py_int_decimal)
qed

lemma parse_price_not_digit:
  assumes "price_elem html = Some text"
    and "\<not> isdigit (strip (replace '','' [] (replace ''$'' [] text)))"
  shows "parse_price html = Inr None"
  using assms by (simp add: parse_price_def)

lemma parse_price_raises:
  assumes "price_elem html = Some text"
    and "residue = strip (replace '','' [] (replace ''$'' [] text))"
    and "isdigit residue" and "\<not> list_all isdecimal_char residue"
    and "length (takeWhile isdecimal_char residue) \<le> int_max_str_digits"
  shows "parse_price html = Inl (ValueError residue)"
  using assms by (simp add: parse_price_def py_int_isdigit)

lemma parse_price_long:
  assumes "price_elem html = Some text"
    and "residue = strip (replace '','' [] (replace ''$'' [] text))"
    and "list_all isdecimal_char residue" and "int_max_str_digits < length residue"
  shows "parse_price html = Inl (ValueError_limit (length residue))"
proof -
  have "residue \<noteq> []"
    using assms(4) by auto
  then have "isdigit residue"
    using assms(3) by (auto simp: isdigit_def list_all_iff isdecimal_imp_isdigit_char)
  then show ?thesis
    using assms by (simp add: parse_price_def py_int_decimal_long)
qed

text \<open>
  Claim C5: a price text that is only digits once \<^verbatim>\<open>$\<close> and \<^verbatim>\<open>,\<close> are removed and it is
  trimmed gives that integer, and any other text gives null. The guard of the source is
  \<^verbatim>\<open>isdigit()\<close>, which also accepts the superscript digits that \<^verbatim>\<open>int()\<close> rejects: for
  the price text \<^verbatim>\<open>$1,250\<close> followed by a superscript two the residue passes the guard
  and the conversion raises \<^verbatim>\<open>ValueError\<close>, where the docstring of \<^verbatim>\<open>parse_price\<close>
  promises \<^verbatim>\<open>None\<close> for an invalid price.
\<close>

theorem parse_price_superscript_raises:
  "parse_price \<lparr>sale_info_elem = None, price_elem = Some (''$1,250'' @ [CHR 0xB2]),
                address_elem = None, features_wrapper = None, sales_page_elem = None\<rparr>
   = Inl (ValueError (''1250'' @ [CHR 0xB2]))"
  by (simp add: parse_price_def replace_def strip_def isdigit_def isdigit_char_def
      isdecimal_char_def isspace_char_def py_int_def int_strip_def int_space_char_def
      int_max_str_digits_def)

section \<open>The fetch client gives up\<close>

lemma requests_append: "requests (xs @ ys) = requests xs @ requests ys"
  by (induction xs rule: requests.induct) simp_all

lemma sleeps_append: "sleeps (xs @ ys) = sleeps xs @ sleeps ys"
  by (induction xs rule: sleeps.induct) simp_all

lemma bodies_append: "bodies (xs @ ys) = bodies xs @ bodies ys"
  by (induction xs rule: bodies.induct) simp_all

lemma history_emit: "history (emit e w) = history w @ [e]"
  by (simp add: emit_def)

lemma history_backoff:
  "history (backoff url a exc w) =
     history w @ [Printed (Retry a url (2 ^ a + rng w 0 * (1 / 10)) exc), Sleep (2 ^ a + rng w 0 * (1 / 10))]"
  by (simp add: backoff_def emit_def Let_def)

lemma rng_backoff: "rng (backoff url a exc w) = (\<lambda>n. rng w (Suc n))"
  by (simp add: backoff_def emit_def Let_def)

lemma rng_emit: "rng (emit e w) = rng w"
  by (simp add: emit_def)

lemma fetch_loop_all_fail:
  assumes fail: "\<forall>c text. fst (http_get c url) \<noteq> Response text"
  shows "\<exists>w' new. fetch_loop http_get url retries a w = (None, w')
           \<and> history w' = history w @ new
           \<and> requests new = replicate (nat (retries - int a)) url
           \<and> sleeps new = map (\<lambda>k. 2 ^ (a + Suc k) + rng w k * (1 / 10)) [0 ..< nat (retries - int a)]"
  using fail
proof (induction http_get url retries a w rule: fetch_loop.induct)
  case (1 http_get url retries attempt w)
  show ?case
  proof (cases "int attempt < retries")
    case False
    then show ?thesis
      by (subst fetch_loop.simps) (simp add: history_emit)
  next
    case True
    obtain result c where g: "http_get (client w) url = (result, c)"
      by (cases "http_get (client w) url")
    define w1 where "w1 = emit (Request url result) (w\<lparr>client := c\<rparr>)"
    obtain exc where res: "result = RequestError exc \<or> result = HTTPStatusError exc"
      using "1.prems" g by (cases result) (auto dest: spec [of _ "client w"])
    define w2 where "w2 = backoff url (Suc attempt) exc w1"
    have step: "fetch_loop http_get url retries attempt w = fetch_loop http_get url retries (Suc attempt) w2"
      using True g res by (subst fetch_loop.simps) (auto simp: w1_def w2_def)
    have "\<exists>w' new. fetch_loop http_get url retries (Suc attempt) w2 = (None, w')
           \<and> history w' = history w2 @ new
           \<and> requests new = replicate (nat (retries - int (Suc attempt))) url
           \<and> sleeps new = map (\<lambda>k. 2 ^ (Suc attempt + Suc k) + rng w2 k * (1 / 10))
                 [0 ..< nat (retries - int (Suc attempt))]"
      using res
    proof
      assume r: "result = RequestError exc"
      show ?thesis
        using "1.IH"(1) [OF True g [symmetric] r "1.prems"] by (simp add: w1_def w2_def r)
    next
      assume r: "result = HTTPStatusError exc"
      show ?thesis
        using "1.IH"(2) [OF True g [symmetric] r "1.prems"] by (simp add: w1_def w2_def r)
    qed
    then obtain w' new where
      a: "fetch_loop http_get url retries (Suc attempt) w2 = (None, w')"
      and b: "history w' = history w2 @ new"
      and c: "requests new = replicate (nat (retries - int (Suc attempt))) url"
      and d: "sleeps new = map (\<lambda>k. 2 ^ (Suc attempt + Suc k) + rng w2 k * (1 / 10))
                 [0 ..< nat (retries - int (Suc attempt))]"
      by blast
    define wait where "wait = 2 ^ Suc attempt + rng w 0 * (1 / 10)"
    have h2: "history w2 = history w @ [Request url result, Printed (Retry (Suc attempt) url wait exc), Sleep wait]"
      by (simp add: w2_def w1_def history_backoff history_emit rng_emit wait_def)
    have r2: "rng w2 = (\<lambda>n. rng w (Suc n))"
      by (simp add: w2_def w1_def rng_backoff rng_emit)
    have n: "nat (retries - int attempt) = Suc (nat (retries - int (Suc attempt)))"
      using True by simp
    let ?new = "[Request url result, Printed (Retry (Suc attempt) url wait exc), Sleep wait] @ new"
    have "fetch_loop http_get url retries attempt w = (None, w')"
      using step a by simp
    moreover have "history w' = history w @ ?new"
      using b h2 by simp
    moreover have "requests ?new = replicate (nat (retries - int attempt)) url"
      using c n by simp
    moreover have "sleeps ?new = map (\<lambda>k. 2 ^ (attempt + Suc k) + rng w k * (1 / 10))
        [0 ..< nat (retries - int attempt)]"
      unfolding n map_upt_Suc using d by (simp add: r2 wait_def)
    ultimately show ?thesis by blast
  qed
qed





section \<open>What a fetch leaves in the history\<close>

lemma fetch_loop_events:
  "\<exists>new j. history (snd (fetch_loop http_get url retries a w)) = history w @ new
     \<and> requests new = replicate j url \<and> (int a < retries \<longrightarrow> 0 < j)
     \<and> (case fst (fetch_loop http_get url retries a w) of
           None \<Rightarrow> bodies new = []
         | Some text \<Rightarrow> (\<exists>pre. new = pre @ [Request url (Response text)] \<and> bodies pre = []))"
proof (induction http_get url retries a w rule: fetch_loop.induct)
  case (1 http_get url retries attempt w)
  show ?case
  proof (cases "int attempt < retries")
    case False
    then show ?thesis
      by (subst (1 2) fetch_loop.simps) (simp add: history_emit exI [of _ 0])
  next
    case True
    obtain result c where g: "http_get (client w) url = (result, c)"
      by (cases "http_get (client w) url")
    define w1 where "w1 = emit (Request url result) (w\<lparr>client := c\<rparr>)"
    show ?thesis
    proof (cases "\<exists>text. result = Response text")
      case True
      then obtain body where r: "result = Response body" by blast
      have "fetch_loop http_get url retries attempt w = (Some body, w1)"
        using \<open>int attempt < retries\<close> g r by (subst fetch_loop.simps) (simp add: w1_def)
      moreover have "history w1 = history w @ [] @ [Request url (Response body)]"
        by (simp add: w1_def history_emit r)
      ultimately show ?thesis
        by (auto intro!: exI [of _ "[Request url (Response body)]"] exI [of _ 1])
    next
      case False
      then obtain exc where res: "result = RequestError exc \<or> result = HTTPStatusError exc"
        by (cases result) auto
      define w2 where "w2 = backoff url (Suc attempt) exc w1"
      define res2 where "res2 = fetch_loop http_get url retries (Suc attempt) w2"
      have step: "fetch_loop http_get url retries attempt w = res2"
        using True g res by (subst fetch_loop.simps) (auto simp: w1_def w2_def res2_def)
      have "\<exists>new j. history (snd (res2)) = history w2 @ new
         \<and> requests new = replicate j url \<and> (int (Suc attempt) < retries \<longrightarrow> 0 < j)
         \<and> (case fst (res2) of
               None \<Rightarrow> bodies new = []
             | Some text \<Rightarrow> (\<exists>pre. new = pre @ [Request url (Response text)] \<and> bodies pre = []))"
        using res
      proof
        assume r: "result = RequestError exc"
        show ?thesis
          using "1.IH"(1) [OF True g [symmetric] r] by (simp add: w1_def w2_def r res2_def)
      next
        assume r: "result = HTTPStatusError exc"
        show ?thesis
          using "1.IH"(2) [OF True g [symmetric] r] by (simp add: w1_def w2_def r res2_def)
      qed
      then obtain new j where
        b: "history (snd (res2)) = history w2 @ new"
        and c: "requests new = replicate j url"
        and d: "case fst (res2) of
               None \<Rightarrow> bodies new = []
             | Some text \<Rightarrow> (\<exists>pre. new = pre @ [Request url (Response text)] \<and> bodies pre = [])"
        by blast
      obtain wait where h2: "history w2 = history w @ [Request url result, Printed (Retry (Suc attempt) url wait exc), Sleep wait]"
        by (simp add: w2_def w1_def history_backoff history_emit rng_emit)
      define pre0 where "pre0 = [Request url result, Printed (Retry (Suc attempt) url wait exc), Sleep wait]"
      have bp: "bodies pre0 = []" and rp: "requests pre0 = [url]"
        using res by (auto simp: pre0_def)
      have "history (snd (fetch_loop http_get url retries attempt w)) = history w @ (pre0 @ new)"
        using step b h2 by (simp add: pre0_def)
      moreover have "requests (pre0 @ new) = replicate (Suc j) url"
        using c rp by (simp add: requests_append)
      moreover have "case fst (fetch_loop http_get url retries attempt w) of
               None \<Rightarrow> bodies (pre0 @ new) = []
             | Some body \<Rightarrow> (\<exists>pre. pre0 @ new = pre @ [Request url (Response body)] \<and> bodies pre = [])"
      proof (cases "fst res2")
        case None
        then show ?thesis
          using d bp step by (simp add: bodies_append)
      next
        case (Some body)
        then obtain pre where "new = pre @ [Request url (Response body)]" "bodies pre = []"
          using d by auto
        then have "pre0 @ new = (pre0 @ pre) @ [Request url (Response body)] \<and> bodies (pre0 @ pre) = []"
          using bp by (simp add: bodies_append)
        then show ?thesis
          using Some step by (auto simp del: append_assoc)
      qed
      ultimately show ?thesis
        by blast
    qed
  qed
qed

section \<open>Search URLs and lists of requests\<close>

lemma digit_value_char_of: "d < 10 \<Longrightarrow> digit_value (char_of (48 + d)) = int d"
proof -
  assume d: "d < 10"
  have "(of_char (char_of (48 + d)) :: nat) = (48 + d) mod 256"
    by simp
  then have "(of_char (char_of (48 + d)) :: nat) = 48 + d"
    using d by simp
  then have "(of_char (char_of (48 + d)) :: int) = int (48 + d)"
    by (metis of_nat_of_char)
  then show ?thesis
    by (simp add: digit_value_def)
qed

lemma decimal_value_snoc: "decimal_value (s @ [c]) = 10 * decimal_value s + digit_value c"
  by (simp add: decimal_value_def)

lemma decimal_value_str_nat: "decimal_value (str_nat n) = int n"
proof (induction n rule: str_nat.induct)
  case (1 n)
  show ?case
  proof (cases "n < 10")
    case True
    then show ?thesis
      by (subst str_nat.simps) (simp add: decimal_value_def digit_value_char_of)
  next
    case False
    have "decimal_value (str_nat n) = 10 * decimal_value (str_nat (n div 10)) + int (n mod 10)"
      using False by (subst str_nat.simps) (simp add: decimal_value_snoc digit_value_char_of)
    also have "\<dots> = 10 * int (n div 10) + int (n mod 10)"
      using "1.IH" False by simp
    also have "\<dots> = int n"
      by (simp add: zdiv_int zmod_int)
    finally show ?thesis .
  qed
qed

lemma search_url_inj_page:
  assumes "search_url pcode beds bath park x = search_url pcode beds bath park y"
    and "0 \<le> x" and "0 \<le> y"
  shows "x = y"
proof -
  have "str_nat (nat x) = str_nat (nat y)"
    using assms by (simp add: search_url_def str_int_def)
  then have "int (nat x) = int (nat y)"
    by (metis decimal_value_str_nat)
  then show ?thesis
    using assms(2,3) by simp
qed

lemma distinct_search_urls: "distinct (map (search_url pcode beds bath park) [1..49])"
proof -
  have "inj_on (search_url pcode beds bath park) {1..49}"
    by (rule inj_onI) (auto dest: search_url_inj_page)
  then show ?thesis
    by (simp add: distinct_map)
qed

lemma take_upto: "k \<le> 49 \<Longrightarrow> take k [1..49] = [1..int k]"
proof (cases "k = 0")
  case True
  then show ?thesis by simp
next
  case False
  assume "k \<le> 49"
  then have "[1..49] = [1..int k] @ [int k + 1..49]"
    using False by (intro upto_split2) auto
  then show ?thesis
    by simp
qed

lemma remdups_adj_replicate_append:
  "0 < j \<Longrightarrow> x \<notin> set ys \<Longrightarrow> remdups_adj (replicate j x @ ys) = x # remdups_adj ys"
proof (induction j)
  case 0
  then show ?case by simp
next
  case (Suc j)
  show ?case
  proof (cases "j = 0")
    case True
    then show ?thesis
      using Suc.prems(2) by (cases ys) auto
  next
    case False
    then obtain i where "j = Suc i" by (cases j) auto
    then show ?thesis
      using Suc by simp
  qed
qed

section \<open>The page loop of one combination\<close>

lemma fetch_property_data_events:
  "\<exists>new j. history (snd (fetch_property_data http_get url default_retries w)) = history w @ new
     \<and> requests new = replicate j url \<and> 0 < j
     \<and> (case fst (fetch_property_data http_get url default_retries w) of
           None \<Rightarrow> bodies new = []
         | Some body \<Rightarrow> (\<exists>pre. new = pre @ [Request url (Response body)] \<and> bodies pre = []))"
  using fetch_loop_events [of http_get url default_retries 0 w]
  by (simp add: fetch_property_data_def default_retries_def)

lemma marked_body_not_empty: "contains no_exact_matches body \<Longrightarrow> body \<noteq> []"
  by (auto simp: no_exact_matches_def)

lemma page_loop_paging:
  assumes "distinct (map (search_url pcode beds bath park) pages)"
  shows "\<exists>new k.
      history (fst (page_loop http_get pcode beds bath park pages (w, h))) = history w @ new
    \<and> snd (page_loop http_get pcode beds bath park pages (w, h)) = h @ filter keeps (bodies new)
    \<and> k \<le> length pages \<and> (pages \<noteq> [] \<longrightarrow> 0 < k)
    \<and> remdups_adj (requests new) = map (search_url pcode beds bath park) (take k pages)
    \<and> ((\<exists>body \<in> set (bodies new). contains no_exact_matches body) \<longrightarrow>
         (\<exists>pre pg body. pg \<in> set pages
            \<and> new = pre @ [Request (search_url pcode beds bath park pg) (Response body),
                             Printed (No_more_matches pcode beds bath park pg)]
            \<and> contains no_exact_matches body
            \<and> (\<forall>x \<in> set (bodies pre). \<not> contains no_exact_matches x)))
    \<and> (k < length pages \<longrightarrow> (\<exists>body \<in> set (bodies new). contains no_exact_matches body))"
  using assms
proof (induction pages arbitrary: w h)
  case Nil
  show ?case
    by (rule exI [of _ "[]"], rule exI [of _ 0]) simp
next
  case (Cons page pages)
  let ?url = "search_url pcode beds bath park"
  define res where "res = fetch_property_data http_get (?url page) default_retries w"
  obtain r w1 where res: "res = (r, w1)"
    by (cases res)
  obtain n1 j where h1: "history w1 = history w @ n1"
    and r1: "requests n1 = replicate j (?url page)" and j: "0 < j"
    and b1: "case r of None \<Rightarrow> bodies n1 = []
             | Some body \<Rightarrow> (\<exists>pre. n1 = pre @ [Request (?url page) (Response body)] \<and> bodies pre = [])"
    using fetch_property_data_events [of http_get "?url page" w] by (auto simp: res_def [symmetric] res)
  have d: "distinct (map ?url pages)" and notin: "?url page \<notin> set (map ?url pages)"
    using Cons.prems by simp_all
  have bodies1: "bodies n1 = (case r of None \<Rightarrow> [] | Some body \<Rightarrow> [body])"
    using b1 by (auto split: option.splits simp: bodies_append)
  show ?case
  proof (cases "\<exists>body. r = Some body \<and> body \<noteq> [] \<and> contains no_exact_matches body")
    case True
    then obtain body where rb: "r = Some body" and ne: "body \<noteq> []"
      and mk: "contains no_exact_matches body"
      by blast
    obtain pre where pre: "n1 = pre @ [Request (?url page) (Response body)]" "bodies pre = []"
      using b1 rb by auto
    define m where "m = Printed (No_more_matches pcode beds bath park page)"
    have out: "page_loop http_get pcode beds bath park (page # pages) (w, h) = (emit m w1, h)"
      using rb ne mk by (simp add: res_def [symmetric] res m_def)
    let ?new = "n1 @ [m]"
    have 1: "history (fst (page_loop http_get pcode beds bath park (page # pages) (w, h))) = history w @ ?new"
      unfolding out by (simp add: history_emit h1)
    have bn: "bodies ?new = [body]"
      by (simp add: bodies_append bodies1 rb m_def)
    have 2: "snd (page_loop http_get pcode beds bath park (page # pages) (w, h)) = h @ filter keeps (bodies ?new)"
      unfolding out using mk by (simp add: bn keeps_def)
    have 3: "remdups_adj (requests ?new) = map ?url (take 1 (page # pages))"
      using remdups_adj_replicate_append [OF j, of "?url page" "[]"]
      by (simp add: requests_append r1 m_def)
    have 4: "\<exists>pre pg body. pg \<in> set (page # pages)
            \<and> ?new = pre @ [Request (?url pg) (Response body),
                              Printed (No_more_matches pcode beds bath park pg)]
            \<and> contains no_exact_matches body
            \<and> (\<forall>x \<in> set (bodies pre). \<not> contains no_exact_matches x)"
      apply (rule exI [of _ pre], rule exI [of _ page], rule exI [of _ body])
      using pre mk by (simp add: m_def)
    have 5: "\<exists>body \<in> set (bodies ?new). contains no_exact_matches body"
      using mk by (simp add: bn)
    show ?thesis
      apply (rule exI [of _ ?new], rule exI [of _ 1])
      using 1 2 3 4 5 by simp
  next
    case False
    define h' where "h' = (case r of None \<Rightarrow> h | Some body \<Rightarrow> if body = [] then h else h @ [body])"
    have out: "page_loop http_get pcode beds bath park (page # pages) (w, h)
        = page_loop http_get pcode beds bath park pages (w1, h')"
      using False by (auto simp: res_def [symmetric] res h'_def split: option.splits)
    have h'_eq: "h' = h @ filter keeps (bodies n1)"
      using False by (auto simp: h'_def bodies1 keeps_def split: option.splits)
    have nomark: "\<forall>x \<in> set (bodies n1). \<not> contains no_exact_matches x"
      using False by (auto simp: bodies1 split: option.splits dest: marked_body_not_empty)
    obtain n2 k where
      i1: "history (fst (page_loop http_get pcode beds bath park pages (w1, h'))) = history w1 @ n2"
      and i2: "snd (page_loop http_get pcode beds bath park pages (w1, h')) = h' @ filter keeps (bodies n2)"
      and i3: "k \<le> length pages" "pages \<noteq> [] \<longrightarrow> 0 < k"
      and i4: "remdups_adj (requests n2) = map ?url (take k pages)"
      and i5: "(\<exists>body \<in> set (bodies n2). contains no_exact_matches body) \<longrightarrow>
         (\<exists>pre pg body. pg \<in> set pages
            \<and> n2 = pre @ [Request (?url pg) (Response body),
                            Printed (No_more_matches pcode beds bath park pg)]
            \<and> contains no_exact_matches body
            \<and> (\<forall>x \<in> set (bodies pre). \<not> contains no_exact_matches x))"
      and i6: "k < length pages \<longrightarrow> (\<exists>body \<in> set (bodies n2). contains no_exact_matches body)"
      using Cons.IH [OF d, of w1 h'] by blast
    let ?new = "n1 @ n2"
    have 1: "history (fst (page_loop http_get pcode beds bath park (page # pages) (w, h))) = history w @ ?new"
      unfolding out i1 by (simp add: h1)
    have 2: "snd (page_loop http_get pcode beds bath park (page # pages) (w, h)) = h @ filter keeps (bodies ?new)"
      unfolding out i2 by (simp add: h'_eq bodies_append)
    have "set (requests n2) = set (remdups_adj (requests n2))"
      by simp
    also have "\<dots> \<subseteq> set (map ?url pages)"
      unfolding i4 by (auto dest: in_set_takeD)
    finally have "?url page \<notin> set (requests n2)"
      using notin by blast
    then have 3: "remdups_adj (requests ?new) = map ?url (take (Suc k) (page # pages))"
      using remdups_adj_replicate_append [OF j, of "?url page" "requests n2"]
      by (simp add: requests_append r1 i4)
    have 4: "\<exists>pre pg body. pg \<in> set (page # pages)
            \<and> ?new = pre @ [Request (?url pg) (Response body),
                              Printed (No_more_matches pcode beds bath park pg)]
            \<and> contains no_exact_matches body
            \<and> (\<forall>x \<in> set (bodies pre). \<not> contains no_exact_matches x)"
      if "\<exists>body \<in> set (bodies ?new). contains no_exact_matches body"
    proof -
      from that nomark have "\<exists>body \<in> set (bodies n2). contains no_exact_matches body"
        by (auto simp: bodies_append)
      with i5 obtain pre pg body where pg: "pg \<in> set pages"
        and p: "n2 = pre @ [Request (?url pg) (Response body),
                            Printed (No_more_matches pcode beds bath park pg)]"
        "contains no_exact_matches body" "\<forall>x \<in> set (bodies pre). \<not> contains no_exact_matches x"
        by blast
      have "?new = (n1 @ pre) @ [Request (?url pg) (Response body),
                                 Printed (No_more_matches pcode beds bath park pg)]"
        using p(1) by simp
      moreover have "\<forall>x \<in> set (bodies (n1 @ pre)). \<not> contains no_exact_matches x"
        using nomark p(3) by (auto simp: bodies_append)
      moreover have "pg \<in> set (page # pages)"
        using pg by simp
      ultimately show ?thesis
        using p(2) by blast
    qed
    have 5: "\<exists>body \<in> set (bodies ?new). contains no_exact_matches body" if "Suc k < length (page # pages)"
      using that i6 by (auto simp: bodies_append)
    show ?thesis
      apply (rule exI [of _ ?new], rule exI [of _ "Suc k"])
      using 1 2 3 4 5 i3 by simp
  qed
qed

lemma contains_no_results_page: "contains no_exact_matches no_results_page"
  by (simp add: no_exact_matches_def no_results_page_def)

lemma fetch_marker_get:
  "fetch_property_data marker_get url default_retries w
   = (Some no_results_page, emit (Request url (Response no_results_page)) (w\<lparr>client := ()\<rparr>))"
  by (simp add: fetch_property_data_def fetch_loop.simps default_retries_def marker_get_def)

lemma page_loop_marker_get:
  "page_loop marker_get pcode beds bath park (page # pages) (w, h)
   = (emit (Printed (No_more_matches pcode beds bath park page))
        (emit (Request (search_url pcode beds bath park page) (Response no_results_page))
           (w\<lparr>client := ()\<rparr>)), h)"
  using contains_no_results_page marked_body_not_empty [OF contains_no_results_page]
  by (simp add: fetch_marker_get)

section \<open>What the enumerator returns\<close>

lemma fold_collects:
  assumes "\<And>x w h. \<exists>new. history (fst (f x (w, h))) = history w @ new
                      \<and> snd (f x (w, h)) = h @ filter keeps (bodies new)"
  shows "\<exists>new. history (fst (fold f xs (w, h))) = history w @ new
              \<and> snd (fold f xs (w, h)) = h @ filter keeps (bodies new)"
proof (induction xs arbitrary: w h)
  case Nil
  show ?case by simp
next
  case (Cons x xs)
  obtain w1 h1 where s: "f x (w, h) = (w1, h1)"
    by (cases "f x (w, h)")
  obtain n1 where 1: "history w1 = history w @ n1" "h1 = h @ filter keeps (bodies n1)"
    using assms [of x w h] by (auto simp: s)
  obtain n2 where 2: "history (fst (fold f xs (w1, h1))) = history w1 @ n2"
    "snd (fold f xs (w1, h1)) = h1 @ filter keeps (bodies n2)"
    using Cons.IH [of w1 h1] by blast
  show ?case
    using 1 2 by (intro exI [of _ "n1 @ n2"]) (simp add: s bodies_append)
qed

lemma page_loop_collects:
  "\<exists>new. history (fst (page_loop http_get pcode beds bath park [1..49] (w, h))) = history w @ new
     \<and> snd (page_loop http_get pcode beds bath park [1..49] (w, h)) = h @ filter keeps (bodies new)"
  using page_loop_paging [OF distinct_search_urls, where http_get = http_get and w = w and h = h
      and pcode = pcode and beds = beds and bath = bath and park = park]
  by blast

text \<open>
  Claim C2, as amended: the enumerator returns, in the order of their requests and
  whatever combination or page they came from, the bodies of the successful responses
  that are not empty and do not contain the no-results text. (The claim says every
  successfully fetched page; the source tests \<^verbatim>\<open>if response_text\<close> and the no-results
  text before it appends.)
\<close>

theorem enumerator_collects:
  "\<exists>new. history (snd (fetch_postcode_data http_get pcode w)) = history w @ new
     \<and> fst (fetch_postcode_data http_get pcode w) = filter keeps (bodies new)"
proof -
  let ?parks = "\<lambda>beds bath. fold (\<lambda>park. page_loop http_get pcode beds bath park [1..49]) [0..5]"
  let ?baths = "\<lambda>beds. fold (\<lambda>bath. ?parks beds bath) [0..5]"
  have p: "\<exists>new. history (fst (?parks beds bath (w, h))) = history w @ new
      \<and> snd (?parks beds bath (w, h)) = h @ filter keeps (bodies new)" for beds bath w h
    by (rule fold_collects) (rule page_loop_collects)
  have b: "\<exists>new. history (fst (?baths beds (w, h))) = history w @ new
      \<and> snd (?baths beds (w, h)) = h @ filter keeps (bodies new)" for beds w h
    by (rule fold_collects) (rule p)
  have "\<exists>new. history (fst (fold ?baths [1..5] (w, []))) = history w @ new
      \<and> snd (fold ?baths [1..5] (w, [])) = [] @ filter keeps (bodies new)"
    by (rule fold_collects) (rule b)
  then show ?thesis
    by (simp add: fetch_postcode_data_def split_beta)
qed

lemma fold_marker_counts:
  assumes "\<And>x w h. snd (f x (w, h)) = h
     \<and> bodies (history (fst (f x (w, h)))) = bodies (history w) @ replicate n no_results_page"
  shows "snd (fold f xs (w, h)) = h
     \<and> bodies (history (fst (fold f xs (w, h))))
         = bodies (history w) @ replicate (length xs * n) no_results_page"
proof (induction xs arbitrary: w h)
  case Nil
  show ?case by simp
next
  case (Cons x xs)
  obtain w1 h1 where s: "f x (w, h) = (w1, h1)"
    by (cases "f x (w, h)")
  have 1: "h1 = h" "bodies (history w1) = bodies (history w) @ replicate n no_results_page"
    using assms [of x w h] by (simp_all add: s)
  show ?case
    using Cons.IH [of w1 h1] by (simp add: s 1 replicate_add)
qed

lemma page_loop_marker_counts:
  "snd (page_loop marker_get pcode beds bath park [1..49] (w, h)) = h
   \<and> bodies (history (fst (page_loop marker_get pcode beds bath park [1..49] (w, h))))
       = bodies (history w) @ replicate 1 no_results_page"
proof -
  have pages: "[1..49] = 1 # [2..49::int]"
    by (simp add: upto_rec1)
  show ?thesis
    unfolding pages page_loop_marker_get by (simp add: history_emit bodies_append)
qed

text \<open>
  Claim C2 as stated fails: a site that answers every request with the no-results page
  is fetched successfully 180 times, once for each combination, and the enumerator
  returns the empty list.
\<close>

theorem marker_pages_not_collected:
  "fst (fetch_postcode_data marker_get ''2000'' (quiet_world ())) = []
   \<and> bodies (history (snd (fetch_postcode_data marker_get ''2000'' (quiet_world ()))))
       = replicate 180 no_results_page"
proof -
  let ?parks = "\<lambda>beds bath. fold (\<lambda>park. page_loop marker_get ''2000'' beds bath park [1..49]) [0..5]"
  let ?baths = "\<lambda>beds. fold (\<lambda>bath. ?parks beds bath) [0..5]"
  have p: "snd (?parks beds bath (w, h)) = h
      \<and> bodies (history (fst (?parks beds bath (w, h))))
          = bodies (history w) @ replicate (length [0..5::int] * 1) no_results_page" for beds bath w h
    by (rule fold_marker_counts) (rule page_loop_marker_counts)
  have b: "snd (?baths beds (w, h)) = h
      \<and> bodies (history (fst (?baths beds (w, h))))
          = bodies (history w) @ replicate (length [0..5::int] * (length [0..5::int] * 1)) no_results_page"
    for beds w h
    by (rule fold_marker_counts) (rule p)
  have "snd (fold ?baths [1..5] (quiet_world (), [])) = []
      \<and> bodies (history (fst (fold ?baths [1..5] (quiet_world (), []))))
          = bodies (history (quiet_world ()))
            @ replicate (length [1..5::int] * (length [0..5::int] * (length [0..5::int] * 1))) no_results_page"
    by (rule fold_marker_counts) (rule b)
  then show ?thesis
    by (simp add: fetch_postcode_data_def split_beta quiet_world_def)
qed

section \<open>The paging of every combination\<close>

lemma page_loop_segment:
  "\<exists>seg k.
      history (fst (page_loop http_get pcode beds bath park [1..49] (w, h))) = history w @ seg
    \<and> 1 \<le> k \<and> k \<le> 49
    \<and> remdups_adj (requests seg) = map (search_url pcode beds bath park) [1..int k]
    \<and> ((\<exists>body \<in> set (bodies seg). contains no_exact_matches body) \<longrightarrow>
         (\<exists>pre body. seg = pre @ [Request (search_url pcode beds bath park (int k)) (Response body),
                                   Printed (No_more_matches pcode beds bath park (int k))]
            \<and> contains no_exact_matches body
            \<and> (\<forall>x \<in> set (bodies pre). \<not> contains no_exact_matches x)))
    \<and> (k < 49 \<longrightarrow> (\<exists>body \<in> set (bodies seg). contains no_exact_matches body))"
proof -
  let ?url = "search_url pcode beds bath park"
  obtain new k where
    a: "history (fst (page_loop http_get pcode beds bath park [1..49] (w, h))) = history w @ new"
    and b: "k \<le> length [1..49::int]" "[1..49::int] \<noteq> [] \<longrightarrow> 0 < k"
    and c: "remdups_adj (requests new) = map ?url (take k [1..49])"
    and d: "(\<exists>body \<in> set (bodies new). contains no_exact_matches body) \<longrightarrow>
         (\<exists>pre pg body. pg \<in> set [1..49]
            \<and> new = pre @ [Request (?url pg) (Response body),
                             Printed (No_more_matches pcode beds bath park pg)]
            \<and> contains no_exact_matches body
            \<and> (\<forall>x \<in> set (bodies pre). \<not> contains no_exact_matches x))"
    and e: "k < length [1..49::int] \<longrightarrow> (\<exists>body \<in> set (bodies new). contains no_exact_matches body)"
    using page_loop_paging [OF distinct_search_urls, where http_get = http_get and w = w and h = h
        and pcode = pcode and beds = beds and bath = bath and park = park] by blast
  have k: "1 \<le> k" "k \<le> 49"
    using b by simp_all
  have t: "take k [1..49] = [1..int k]"
    using k(2) by (rule take_upto)
  have r: "remdups_adj (requests new) = map ?url [1..int k]"
    using c t by simp
  have lastk: "last (map ?url [1..int k]) = ?url (int k)"
    using k(1) by (simp add: upto_rec2 [of 1 "int k"])
  have m: "\<exists>pre body. new = pre @ [Request (?url (int k)) (Response body),
                                   Printed (No_more_matches pcode beds bath park (int k))]
            \<and> contains no_exact_matches body
            \<and> (\<forall>x \<in> set (bodies pre). \<not> contains no_exact_matches x)"
    if "\<exists>body \<in> set (bodies new). contains no_exact_matches body"
  proof -
    from that d obtain pre pg body where pg: "pg \<in> set [1..49]"
      and n: "new = pre @ [Request (?url pg) (Response body),
                           Printed (No_more_matches pcode beds bath park pg)]"
      and p: "contains no_exact_matches body" "\<forall>x \<in> set (bodies pre). \<not> contains no_exact_matches x"
      by blast
    have "requests new = requests pre @ [?url pg]"
      unfolding n by (simp add: requests_append)
    then have "last (requests new) = ?url pg"
      by simp
    moreover have "last (requests new) = last (remdups_adj (requests new))"
      by simp
    ultimately have "?url pg = ?url (int k)"
      unfolding r lastk by simp
    then have "pg = int k"
      using pg by (intro search_url_inj_page [of pcode beds bath park pg "int k"]) auto
    then show ?thesis
      using n p by blast
  qed
  show ?thesis
    apply (rule exI [of _ new], rule exI [of _ k])
    using a k r m e by simp
qed

lemma fold_segments:
  assumes "\<And>x w h. \<exists>seg. history (fst (f x (w, h))) = history w @ seg \<and> P x seg"
  shows "\<exists>segs. history (fst (fold f xs (w, h))) = history w @ concat segs \<and> list_all2 P xs segs"
proof (induction xs arbitrary: w h)
  case Nil
  show ?case by simp
next
  case (Cons x xs)
  obtain w1 h1 where s: "f x (w, h) = (w1, h1)"
    by (cases "f x (w, h)")
  obtain seg where 1: "history w1 = history w @ seg" "P x seg"
    using assms [of x w h] by (auto simp: s)
  obtain segs where 2: "history (fst (fold f xs (w1, h1))) = history w1 @ concat segs"
    "list_all2 P xs segs"
    using Cons.IH [of w1 h1] by blast
  show ?case
    using 1 2 by (intro exI [of _ "seg # segs"]) (simp add: s)
qed

lemma fold_concat_lists: "fold f (concat xss) = fold (fold f) xss"
  by (induction xss) simp_all

lemma fetch_postcode_data_fold:
  "fetch_postcode_data http_get pcode w =
     (case fold (\<lambda>(beds, bath, park). page_loop http_get pcode beds bath park [1..49])
             combinations (w, [])
      of (w', property_html) \<Rightarrow> (property_html, w'))"
  by (simp add: fetch_postcode_data_def combinations_def fold_concat_lists fold_map comp_def)

lemma set_combinations:
  "(beds, bath, park) \<in> set combinations \<longleftrightarrow>
     1 \<le> beds \<and> beds \<le> 5 \<and> 0 \<le> bath \<and> bath \<le> 5 \<and> 0 \<le> park \<and> park \<le> 5"
  by (auto simp: combinations_def image_iff)

lemma distinct_combinations: "distinct combinations"
  by code_simp

lemma split_before_last_two:
  assumes "xs @ x # ys = zs @ [a, b]"
  shows "(ys = [] \<and> x = b \<and> xs = zs @ [a]) \<or> (ys = [b] \<and> x = a \<and> xs = zs)
       \<or> (\<exists>ys'. ys = ys' @ [a, b] \<and> zs = xs @ x # ys')"
proof (cases ys rule: rev_cases)
  case Nil
  then show ?thesis using assms by auto
next
  case (snoc ys1 y)
  then have 1: "y = b" "xs @ x # ys1 = zs @ [a]"
    using assms by auto
  show ?thesis
  proof (cases ys1 rule: rev_cases)
    case Nil
    then show ?thesis using 1 snoc by auto
  next
    case (snoc ys2 y')
    then show ?thesis using 1 \<open>ys = ys1 @ [y]\<close> by auto
  qed
qed

lemma single_digit: "0 \<le> n \<Longrightarrow> n \<le> 9 \<Longrightarrow> str_int n = [char_of (48 + nat n)]"
  by (simp add: str_int_def)

lemma search_url_inj_combination:
  assumes "search_url pcode beds bath park x = search_url pcode beds' bath' park' y"
    and "(beds, bath, park) \<in> set combinations" and "(beds', bath', park') \<in> set combinations"
  shows "(beds, bath, park) = (beds', bath', park')"
proof -
  have d: "decimal_value [char_of (48 + nat n)] = n" if "0 \<le> n" "n \<le> 9" for n
    using that digit_value_char_of [of "nat n"] by (simp add: decimal_value_def)
  have r: "0 \<le> beds" "beds \<le> 9" "0 \<le> bath" "bath \<le> 9" "0 \<le> park" "park \<le> 9"
    "0 \<le> beds'" "beds' \<le> 9" "0 \<le> bath'" "bath' \<le> 9" "0 \<le> park'" "park' \<le> 9"
    using assms(2,3) by (simp_all add: set_combinations)
  have "[char_of (48 + nat beds)] = [char_of (48 + nat beds')]
      \<and> [char_of (48 + nat bath)] = [char_of (48 + nat bath')]
      \<and> [char_of (48 + nat park)] = [char_of (48 + nat park')]"
    using assms(1) r by (simp add: search_url_def single_digit)
  then show ?thesis
    using d r by (metis prod.inject)
qed

lemma marker_response_is_last_request:
  assumes "(\<exists>x \<in> set (bodies seg). contains no_exact_matches x) \<longrightarrow>
         (\<exists>pre' body'. seg = pre' @ [Request u' (Response body'), Printed m]
            \<and> (\<forall>x \<in> set (bodies pre'). \<not> contains no_exact_matches x))"
    and "seg = pre @ Request u (Response body) # post" and "contains no_exact_matches body"
  shows "requests post = []"
proof -
  have "\<exists>x \<in> set (bodies seg). contains no_exact_matches x"
    using assms(2,3) by (auto simp: bodies_append)
  then obtain pre' body' where s: "seg = pre' @ [Request u' (Response body'), Printed m]"
    and n: "\<forall>x \<in> set (bodies pre'). \<not> contains no_exact_matches x"
    using assms(1) by blast
  have "pre @ Request u (Response body) # post = pre' @ [Request u' (Response body'), Printed m]"
    using assms(2) s by simp
  then have "(post = [] \<and> Request u (Response body) = Printed m
        \<and> pre = pre' @ [Request u' (Response body')])
      \<or> (post = [Printed m] \<and> Request u (Response body) = Request u' (Response body') \<and> pre = pre')
      \<or> (\<exists>ys'. post = ys' @ [Request u' (Response body'), Printed m]
            \<and> pre' = pre @ Request u (Response body) # ys')"
    by (rule split_before_last_two)
  then show ?thesis
  proof (elim disjE conjE exE)
    assume "Request u (Response body) = Printed m"
    then show ?thesis by simp
  next
    assume "post = [Printed m]"
    then show ?thesis by simp
  next
    fix ys'
    assume "pre' = pre @ Request u (Response body) # ys'"
    then have "body \<in> set (bodies pre')"
      by (simp add: bodies_append)
    then show ?thesis
      using n assms(3) by blast
  qed
qed

lemma requests_of_later_segments:
  assumes "list_all2 P cs segs"
    and "\<And>c seg. P c seg \<Longrightarrow> set (requests seg) \<subseteq> U c"
  shows "set (requests (concat segs)) \<subseteq> (\<Union>c \<in> set cs. U c)"
  using assms(1)
proof (induction rule: list_all2_induct)
  case Nil
  show ?case by simp
next
  case (Cons c cs seg segs)
  show ?case
    using Cons.IH assms(2) [OF Cons.hyps(1)] by (auto simp: requests_append)
qed

lemma no_request_after_marker:
  assumes "list_all2 P cs segs" and "distinct cs" and "set cs \<subseteq> set combinations"
    and urls: "\<And>c seg. P c seg \<Longrightarrow>
          set (requests seg) \<subseteq> (\<lambda>n. search_url pcode (fst c) (fst (snd c)) (snd (snd c)) n) ` {1..49}"
    and fin: "\<And>c seg pre u body post. P c seg \<Longrightarrow> seg = pre @ Request u (Response body) # post \<Longrightarrow>
          contains no_exact_matches body \<Longrightarrow> requests post = []"
    and "concat segs = pre @ Request (search_url pcode beds bath park page) (Response body) # post"
    and "(beds, bath, park) \<in> set combinations" and "contains no_exact_matches body"
  shows "\<forall>page' \<in> {1..49}. search_url pcode beds bath park page' \<notin> set (requests post)"
  using assms(1,2,3,6)
proof (induction arbitrary: pre rule: list_all2_induct)
  case Nil
  then show ?case by simp
next
  case (Cons c cs seg segs)
  let ?E = "Request (search_url pcode beds bath park page) (Response body)"
  let ?U = "\<lambda>c. (\<lambda>n. search_url pcode (fst c) (fst (snd c)) (snd (snd c)) n) ` {1..49}"
  have d: "distinct cs" "c \<notin> set cs" and sub: "set cs \<subseteq> set combinations" "c \<in> set combinations"
    using Cons.prems by simp_all
  have eq: "seg @ concat segs = pre @ ?E # post"
    using Cons.prems(3) by simp
  then obtain us where "(seg = pre @ us \<and> us @ concat segs = ?E # post)
      \<or> (seg @ us = pre \<and> concat segs = us @ ?E # post)"
    by (auto simp: append_eq_append_conv2)
  then consider pre2 where "concat segs = pre2 @ ?E # post"
    | us' where "seg = pre @ ?E # us'" "post = us' @ concat segs"
    by (cases us) (auto intro: that [of "[]"])
  then show ?case
  proof cases
    case 1
    then show ?thesis
      using Cons.IH [OF d(1) sub(1)] by blast
  next
    case 2
    have r: "requests us' = []"
      using fin [OF Cons.hyps(1) 2(1) assms(8)] .
    have "search_url pcode beds bath park page \<in> set (requests seg)"
      unfolding 2(1) by (simp add: requests_append)
    then have "search_url pcode beds bath park page \<in> ?U c"
      using urls [OF Cons.hyps(1)] by blast
    then obtain n where "search_url pcode beds bath park page
        = search_url pcode (fst c) (fst (snd c)) (snd (snd c)) n"
      by blast
    then have c: "c = (beds, bath, park)"
      using search_url_inj_combination [of pcode beds bath park page "fst c" "fst (snd c)" "snd (snd c)" n]
        assms(7) sub(2) by simp
    have later: "set (requests (concat segs)) \<subseteq> (\<Union>c \<in> set cs. ?U c)"
      using Cons.hyps(2) urls by (rule requests_of_later_segments)
    show ?thesis
    proof
      fix page' :: int
      assume "page' \<in> {1..49}"
      show "search_url pcode beds bath park page' \<notin> set (requests post)"
      proof
        assume "search_url pcode beds bath park page' \<in> set (requests post)"
        then have "search_url pcode beds bath park page' \<in> set (requests (concat segs))"
          unfolding 2(2) by (simp add: requests_append r)
        then obtain c' n' where c': "c' \<in> set cs"
          and "search_url pcode beds bath park page'
            = search_url pcode (fst c') (fst (snd c')) (snd (snd c')) n'"
          using later by blast
        then have "c' = (beds, bath, park)"
          using search_url_inj_combination
            [of pcode beds bath park page' "fst c'" "fst (snd c')" "snd (snd c')" n'] assms(7) sub(1)
          by auto
        then show False
          using c c' d(2) by simp
      qed
    qed
  qed
qed

text \<open>
  Claim C3: for every combination the pages are requested in increasing order from 1,
  never beyond 49; after a response whose body contains the no-results text no further
  request is made for the combination; a fetch that returns null does not stop the
  paging. The history that \<^verbatim>\<open>fetch_postcode_data\<close> adds is made of one segment for each
  combination, in the order of the loops. In the segment of a combination the requested
  URLs, repetitions by retry left aside, are those of its pages 1 to \<open>k\<close> for some \<open>k\<close>
  from 1 to 49; if a body with the no-results text was received there, it is the response
  to the request for page \<open>k\<close> and only the printed line follows it; and the paging ends
  before page 49 only if such a body was received, so a null fetch never ends it. In the
  whole history, no request for a page of a combination follows a response to a request
  of that combination whose body contains the no-results text.
\<close>

theorem paging_of_every_combination:
  "\<exists>segs.
      history (snd (fetch_postcode_data http_get pcode w)) = history w @ concat segs
    \<and> list_all2 (\<lambda>(beds, bath, park) seg.
         \<exists>k. 1 \<le> k \<and> k \<le> 49
           \<and> remdups_adj (requests seg) = map (search_url pcode beds bath park) [1..int k]
           \<and> ((\<exists>body \<in> set (bodies seg). contains no_exact_matches body) \<longrightarrow>
                (\<exists>pre body.
                    seg = pre @ [Request (search_url pcode beds bath park (int k)) (Response body),
                                 Printed (No_more_matches pcode beds bath park (int k))]
                  \<and> contains no_exact_matches body
                  \<and> (\<forall>x \<in> set (bodies pre). \<not> contains no_exact_matches x)))
           \<and> (k < 49 \<longrightarrow> (\<exists>body \<in> set (bodies seg). contains no_exact_matches body)))
       combinations segs
    \<and> (\<forall>pre beds bath park page body post.
          concat segs = pre @ Request (search_url pcode beds bath park page) (Response body) # post
          \<and> (beds, bath, park) \<in> set combinations \<and> contains no_exact_matches body \<longrightarrow>
          (\<forall>page' \<in> {1..49}. search_url pcode beds bath park page' \<notin> set (requests post)))"
proof -
  define P where "P = (\<lambda>(beds, bath, park) seg.
         \<exists>k. 1 \<le> k \<and> k \<le> 49
           \<and> remdups_adj (requests seg) = map (search_url pcode beds bath park) [1..int k]
           \<and> ((\<exists>body \<in> set (bodies seg). contains no_exact_matches body) \<longrightarrow>
                (\<exists>pre body.
                    seg = pre @ [Request (search_url pcode beds bath park (int k)) (Response body),
                                 Printed (No_more_matches pcode beds bath park (int k))]
                  \<and> contains no_exact_matches body
                  \<and> (\<forall>x \<in> set (bodies pre). \<not> contains no_exact_matches x)))
           \<and> (k < 49 \<longrightarrow> (\<exists>body \<in> set (bodies seg). contains no_exact_matches body)))"
  let ?f = "\<lambda>(beds, bath, park). page_loop http_get pcode beds bath park [1..49]"
  have step: "\<exists>seg. history (fst (?f c (w, h))) = history w @ seg \<and> P c seg" for c w h
  proof -
    obtain beds bath park where c: "c = (beds, bath, park)"
      by (cases c)
    show ?thesis
      using page_loop_segment [of http_get pcode beds bath park w h] unfolding c P_def
      by (simp only: prod.case) blast
  qed
  obtain segs where h: "history (fst (fold ?f combinations (w, []))) = history w @ concat segs"
    and l: "list_all2 P combinations segs"
    using fold_segments [of ?f P combinations w "[]", OF step] by blast
  have hist: "history (snd (fetch_postcode_data http_get pcode w)) = history w @ concat segs"
    using h by (simp add: fetch_postcode_data_fold split_beta)
  have unfold_P: "\<exists>k. 1 \<le> k \<and> k \<le> 49
           \<and> remdups_adj (requests seg) = map (search_url pcode beds bath park) [1..int k]
           \<and> ((\<exists>body \<in> set (bodies seg). contains no_exact_matches body) \<longrightarrow>
                (\<exists>pre body.
                    seg = pre @ [Request (search_url pcode beds bath park (int k)) (Response body),
                                 Printed (No_more_matches pcode beds bath park (int k))]
                  \<and> contains no_exact_matches body
                  \<and> (\<forall>x \<in> set (bodies pre). \<not> contains no_exact_matches x)))
           \<and> (k < 49 \<longrightarrow> (\<exists>body \<in> set (bodies seg). contains no_exact_matches body))"
    if "P (beds, bath, park) seg" for beds bath park seg
    using that unfolding P_def by (simp only: prod.case)
  have urls: "set (requests seg) \<subseteq> (\<lambda>n. search_url pcode (fst c) (fst (snd c)) (snd (snd c)) n) ` {1..49}"
    if "P c seg" for c seg
  proof -
    obtain beds bath park where c: "c = (beds, bath, park)"
      by (cases c)
    have "P (beds, bath, park) seg"
      using that by (simp only: c)
    from unfold_P [OF this] obtain k where k: "k \<le> 49"
      and r: "remdups_adj (requests seg) = map (search_url pcode beds bath park) [1..int k]"
      by (elim exE conjE)
    have "set (requests seg) = set (remdups_adj (requests seg))"
      by simp
    also have "\<dots> \<subseteq> (\<lambda>n. search_url pcode beds bath park n) ` {1..49}"
      unfolding r using k by auto
    finally show ?thesis
      unfolding c by simp
  qed
  have fin: "requests post = []"
    if "P c seg" "seg = pre @ Request u (Response body) # post" "contains no_exact_matches body"
    for c seg pre u body post
  proof -
    obtain beds bath park where c: "c = (beds, bath, park)"
      by (cases c)
    have "P (beds, bath, park) seg"
      using that(1) by (simp only: c)
    from unfold_P [OF this]
    obtain k where m: "(\<exists>body \<in> set (bodies seg). contains no_exact_matches body) \<longrightarrow>
                (\<exists>pre body.
                    seg = pre @ [Request (search_url pcode beds bath park (int k)) (Response body),
                                 Printed (No_more_matches pcode beds bath park (int k))]
                  \<and> contains no_exact_matches body
                  \<and> (\<forall>x \<in> set (bodies pre). \<not> contains no_exact_matches x))"
      by (elim exE conjE)
    have "(\<exists>x \<in> set (bodies seg). contains no_exact_matches x) \<longrightarrow>
         (\<exists>pre' body'. seg = pre' @ [Request (search_url pcode beds bath park (int k)) (Response body'),
               Printed (No_more_matches pcode beds bath park (int k))]
            \<and> (\<forall>x \<in> set (bodies pre'). \<not> contains no_exact_matches x))"
      using m by blast
    then show ?thesis
      using that(2,3) by (rule marker_response_is_last_request)
  qed
  have after: "\<forall>page' \<in> {1..49}. search_url pcode beds bath park page' \<notin> set (requests post)"
    if "concat segs = pre @ Request (search_url pcode beds bath park page) (Response body) # post"
      "(beds, bath, park) \<in> set combinations" "contains no_exact_matches body"
    for pre beds bath park page body post
    by (rule no_request_after_marker [where P = P and cs = combinations and segs = segs
          and pcode = pcode and pre = pre and page = page and body = body,
          OF l distinct_combinations subset_refl urls fin that])
  have 3: "\<forall>pre beds bath park page body post.
          concat segs = pre @ Request (search_url pcode beds bath park page) (Response body) # post
          \<and> (beds, bath, park) \<in> set combinations \<and> contains no_exact_matches body \<longrightarrow>
          (\<forall>page' \<in> {1..49}. search_url pcode beds bath park page' \<notin> set (requests post))"
    using after by (intro allI impI) (elim conjE)
  show ?thesis
    by (rule exI [of _ segs], intro conjI) (rule hist, rule l [unfolded P_def], rule 3)
qed

lemma fetch_response:
  assumes "http_get (client w) url = (Response body, c)"
  shows "fetch_property_data http_get url default_retries w
         = (Some body, emit (Request url (Response body)) (w\<lparr>client := c\<rparr>))"
  using assms by (simp add: fetch_property_data_def fetch_loop.simps default_retries_def)

lemma fetch_none:
  assumes "\<forall>c text. fst (http_get c url) \<noteq> Response text"
  shows "\<exists>w' new. fetch_property_data http_get url default_retries w = (None, w')
           \<and> history w' = history w @ new
           \<and> requests new = replicate 5 url \<and> bodies new = []"
proof -
  obtain w' new where a: "fetch_loop http_get url default_retries 0 w = (None, w')"
    and b: "history w' = history w @ new"
    and c: "requests new = replicate (nat (default_retries - int 0)) url"
    using fetch_loop_all_fail [where http_get = http_get and url = url
        and retries = default_retries and a = 0 and w = w] assms by blast
  obtain new' where d: "history (snd (fetch_loop http_get url default_retries 0 w)) = history w @ new'"
    and e: "case fst (fetch_loop http_get url default_retries 0 w) of
           None \<Rightarrow> bodies new' = []
         | Some text \<Rightarrow> (\<exists>pre. new' = pre @ [Request url (Response text)] \<and> bodies pre = [])"
    using fetch_loop_events [of http_get url default_retries 0 w] by blast
  have "new' = new"
    using b d by (simp add: a)
  then have "bodies new = []"
    using e by (simp add: a)
  then show ?thesis
    using a b c by (simp add: fetch_property_data_def default_retries_def)
qed

lemma three_page_get_pages:
  "three_page_get c (search_url ''2000'' 1 0 0 1) = (Response listing_page, c)"
  "three_page_get c (search_url ''2000'' 1 0 0 2) = (RequestError ''timed out'', c)"
  "three_page_get c (search_url ''2000'' 1 0 0 3) = (Response no_results_page, c)"
  by code_simp+

lemma keeps_listing_page: "listing_page \<noteq> [] \<and> \<not> contains no_exact_matches listing_page"
  by code_simp

lemma three_pages_of_first_combination:
  "\<exists>pre w'. page_loop three_page_get ''2000'' 1 0 0 [1..49] (w, h) = (w', h @ [listing_page])
     \<and> history w' = history w @ pre @
         [Request (search_url ''2000'' 1 0 0 3) (Response no_results_page),
          Printed (No_more_matches ''2000'' 1 0 0 3)]
     \<and> requests pre = search_url ''2000'' 1 0 0 1 # replicate 5 (search_url ''2000'' 1 0 0 2)
     \<and> bodies pre = [listing_page]"
proof -
  let ?url = "search_url ''2000'' 1 0 0"
  have pages: "[1..49] = 1 # 2 # 3 # [4..49::int]"
    by (simp add: upto_rec1)
  define w1 where "w1 = emit (Request (?url 1) (Response listing_page)) (w\<lparr>client := client w\<rparr>)"
  have f1: "fetch_property_data three_page_get (?url 1) default_retries w = (Some listing_page, w1)"
    unfolding w1_def by (rule fetch_response) (rule three_page_get_pages)
  have "\<forall>c text. fst (three_page_get c (?url 2)) \<noteq> Response text"
    by (simp add: three_page_get_pages)
  then obtain w2 new where f2: "fetch_property_data three_page_get (?url 2) default_retries w1 = (None, w2)"
    and h2: "history w2 = history w1 @ new"
    and r2: "requests new = replicate 5 (?url 2)" and b2: "bodies new = []"
    using fetch_none [of three_page_get "?url 2" w1] by blast
  define w3 where "w3 = emit (Request (?url 3) (Response no_results_page)) (w2\<lparr>client := client w2\<rparr>)"
  have f3: "fetch_property_data three_page_get (?url 3) default_retries w2 = (Some no_results_page, w3)"
    unfolding w3_def by (rule fetch_response) (rule three_page_get_pages)
  have run: "page_loop three_page_get ''2000'' 1 0 0 [1..49] (w, h)
      = (emit (Printed (No_more_matches ''2000'' 1 0 0 3)) w3, h @ [listing_page])"
    unfolding pages
    using keeps_listing_page contains_no_results_page marked_body_not_empty [OF contains_no_results_page]
    by (simp add: f1 f2 f3)
  let ?pre = "Request (?url 1) (Response listing_page) # new"
  have "history (emit (Printed (No_more_matches ''2000'' 1 0 0 3)) w3)
      = history w @ ?pre @ [Request (?url 3) (Response no_results_page),
                            Printed (No_more_matches ''2000'' 1 0 0 3)]"
    by (simp add: history_emit w3_def h2 w1_def)
  moreover have "requests ?pre = ?url 1 # replicate 5 (?url 2)" "bodies ?pre = [listing_page]"
    using r2 b2 by simp_all
  ultimately show ?thesis
    using run by blast
qed

lemma combinations_first: "combinations = (1, 0, 0) # tl combinations"
  by code_simp

lemma fold_extends_history:
  "\<exists>rest. history (fst (fold (\<lambda>(beds, bath, park). page_loop http_get pcode beds bath park [1..49])
                            cs (w, h))) = history w @ rest"
proof (induction cs arbitrary: w h)
  case Nil
  show ?case by simp
next
  case (Cons c cs)
  obtain beds bath park where c: "c = (beds, bath, park)"
    by (cases c)
  obtain w1 h1 where s: "page_loop http_get pcode beds bath park [1..49] (w, h) = (w1, h1)"
    by (cases "page_loop http_get pcode beds bath park [1..49] (w, h)")
  obtain seg where 1: "history w1 = history w @ seg"
    using page_loop_collects [of http_get pcode beds bath park w h] by (auto simp: s)
  obtain rest where "history (fst (fold (\<lambda>(beds, bath, park). page_loop http_get pcode beds bath park [1..49])
                            cs (w1, h1))) = history w1 @ rest"
    using Cons.IH [of w1 h1] by blast
  then show ?case
    using 1 by (intro exI [of _ "seg @ rest"]) (simp add: c s)
qed

lemma three_page_run:
  "\<exists>pre rest.
      history (snd (fetch_postcode_data three_page_get ''2000'' (quiet_world ())))
        = pre @ Request (search_url ''2000'' 1 0 0 3) (Response no_results_page)
              # Printed (No_more_matches ''2000'' 1 0 0 3) # rest
    \<and> requests pre = search_url ''2000'' 1 0 0 1 # replicate 5 (search_url ''2000'' 1 0 0 2)
    \<and> bodies pre = [listing_page]"
proof -
  let ?f = "\<lambda>(beds, bath, park). page_loop three_page_get ''2000'' beds bath park [1..49]"
  obtain pre w' where
    p: "page_loop three_page_get ''2000'' 1 0 0 [1..49] (quiet_world (), []) = (w', [] @ [listing_page])"
    and h: "history w' = history (quiet_world ()) @ pre @
         [Request (search_url ''2000'' 1 0 0 3) (Response no_results_page),
          Printed (No_more_matches ''2000'' 1 0 0 3)]"
    and r: "requests pre = search_url ''2000'' 1 0 0 1 # replicate 5 (search_url ''2000'' 1 0 0 2)"
      "bodies pre = [listing_page]"
    using three_pages_of_first_combination [of "quiet_world ()" "[]"] by blast
  obtain rest where "history (fst (fold ?f (tl combinations) (w', [listing_page]))) = history w' @ rest"
    using fold_extends_history [of three_page_get "''2000''" "tl combinations" w' "[listing_page]"]
    by blast
  moreover have "fold ?f combinations (quiet_world (), []) = fold ?f (tl combinations) (w', [listing_page])"
    by (subst combinations_first) (simp add: p)
  ultimately have "history (snd (fetch_postcode_data three_page_get ''2000'' (quiet_world ())))
      = pre @ Request (search_url ''2000'' 1 0 0 3) (Response no_results_page)
            # Printed (No_more_matches ''2000'' 1 0 0 3) # rest"
    using h by (simp add: fetch_postcode_data_fold split_beta quiet_world_def)
  then show ?thesis
    using r by blast
qed

theorem paging_of_every_combination_witness:
  "\<exists>pre post.
      history (snd (fetch_postcode_data three_page_get ''2000'' (quiet_world ())))
        = pre @ Request (search_url ''2000'' 1 0 0 3) (Response no_results_page) # post
    \<and> requests pre = search_url ''2000'' 1 0 0 1 # replicate 5 (search_url ''2000'' 1 0 0 2)
    \<and> bodies pre = [listing_page]
    \<and> contains no_exact_matches no_results_page
    \<and> search_url ''2000'' 1 0 0 1 \<notin> set (requests post)
    \<and> search_url ''2000'' 1 0 0 3 \<notin> set (requests post)
    \<and> search_url ''2000'' 1 0 0 4 \<notin> set (requests post)"
proof -
  let ?run = "fetch_postcode_data three_page_get ''2000'' (quiet_world ())"
  let ?url = "search_url ''2000'' 1 0 0"
  obtain pre rest where
    h: "history (snd ?run) = pre @ Request (?url 3) (Response no_results_page)
          # Printed (No_more_matches ''2000'' 1 0 0 3) # rest"
    and r: "requests pre = ?url 1 # replicate 5 (?url 2)" "bodies pre = [listing_page]"
    using three_page_run by blast
  define post where "post = Printed (No_more_matches ''2000'' 1 0 0 3) # rest"
  obtain segs where s: "history (snd ?run) = history (quiet_world ()) @ concat segs"
    and after: "\<forall>pre beds bath park page body post.
          concat segs = pre @ Request (search_url ''2000'' beds bath park page) (Response body) # post
          \<and> (beds, bath, park) \<in> set combinations \<and> contains no_exact_matches body \<longrightarrow>
          (\<forall>page' \<in> {1..49}. search_url ''2000'' beds bath park page' \<notin> set (requests post))"
    using paging_of_every_combination [of three_page_get "''2000''" "quiet_world ()"] by blast
  have c: "concat segs = pre @ Request (?url 3) (Response no_results_page) # post"
    using s h by (simp add: quiet_world_def post_def)
  have m: "(1, 0, 0) \<in> set combinations"
    by (simp add: set_combinations)
  have "\<forall>page' \<in> {1..49}. ?url page' \<notin> set (requests post)"
    using after c m contains_no_results_page by blast
  then have "?url 1 \<notin> set (requests post)" "?url 3 \<notin> set (requests post)"
    "?url 4 \<notin> set (requests post)"
    by simp_all
  moreover have "history (snd ?run) = pre @ Request (?url 3) (Response no_results_page) # post"
    using h by (simp add: post_def)
  ultimately show ?thesis
    using r contains_no_results_page by blast
qed

section \<open>The whole record and internal errors\<close>

lemma sale_info_of_card:
  "parse_sale_info superscript_price_card = (Some ''Sold'', Some ''12 Jan 2023'')"
  by code_simp

lemma price_of_card:
  "parse_price superscript_price_card = Inl (ValueError (''1250'' @ [CHR 0xB2]))"
  by code_simp

text \<open>
  Claim C1 as stated fails: when the price conversion raises, the handler prints the cause
  and \<^verbatim>\<open>parse_html\<close> returns the dictionary as it then is, with the sale type and sale
  date that were assigned before the exception; the record is not the all-null default.
\<close>

theorem partial_record_on_error:
  "parse_html card_parser ''<html></html>'' =
     (default_data\<lparr>sale_type := Some ''Sold'', sale_date := Some ''12 Jan 2023''\<rparr>,
      [Error_parsing_HTML (ValueError (''1250'' @ [CHR 0xB2]))])
   \<and> default_data\<lparr>sale_type := Some ''Sold'', sale_date := Some ''12 Jan 2023''\<rparr> \<noteq> default_data"
  by (simp add: parse_html_def parse_html_body_def card_parser_def sale_info_of_card price_of_card default_data_def)

text \<open>
  Claim C1, as amended: \<^verbatim>\<open>parse_html\<close> returns a record for every parsed document (it is a
  total function) and raises nothing. When a step raises, the cause is printed and the
  record holds the fields assigned before that step, all later fields being null: after
  an error in the price step only the sale type and sale date; after an error in the
  property details also the price, the address and the postcode. Without an error nothing
  is printed and every field holds what its extraction gave.
\<close>

theorem parse_html_keeps_earlier_fields:
  "(\<forall>e. parse_price (HTMLParser html_content) = Inl e \<longrightarrow>
      parse_html HTMLParser html_content =
        (default_data\<lparr>sale_type := fst (parse_sale_info (HTMLParser html_content)),
                      sale_date := snd (parse_sale_info (HTMLParser html_content))\<rparr>,
         [Error_parsing_HTML e]))
   \<and> (\<forall>p e. parse_price (HTMLParser html_content) = Inr p
          \<and> parse_property_details (HTMLParser html_content) = Inl e \<longrightarrow>
      parse_html HTMLParser html_content =
        (default_data\<lparr>sale_type := fst (parse_sale_info (HTMLParser html_content)),
                      sale_date := snd (parse_sale_info (HTMLParser html_content)),
                      price := p,
                      address := map_option (\<lambda>a. fst (parse_address a))
                                   (address_elem (HTMLParser html_content)),
                      postcode := (case address_elem (HTMLParser html_content) of
                                     None \<Rightarrow> None | Some a \<Rightarrow> snd (parse_address a))\<rparr>,
         [Error_parsing_HTML e]))
   \<and> (\<forall>p b ba pk ar. parse_price (HTMLParser html_content) = Inr p
          \<and> parse_property_details (HTMLParser html_content) = Inr (b, ba, pk, ar) \<longrightarrow>
      parse_html HTMLParser html_content =
        (\<lparr>sale_type = fst (parse_sale_info (HTMLParser html_content)),
          sale_date = snd (parse_sale_info (HTMLParser html_content)),
          price = p,
          address = map_option (\<lambda>a. fst (parse_address a)) (address_elem (HTMLParser html_content)),
          postcode = (case address_elem (HTMLParser html_content) of
                        None \<Rightarrow> None | Some a \<Rightarrow> snd (parse_address a)),
          bedrooms = b, baths = ba, parking = pk, area = ar,
          sales_page_href = parse_sales_page (HTMLParser html_content)\<rparr>, []))"
  by (auto simp: parse_html_def parse_html_body_def default_data_def split_beta
      split: option.splits)

theorem parse_html_keeps_earlier_fields_witness:
  "parse_price (card_parser ''<html></html>'') = Inl (ValueError (''1250'' @ [CHR 0xB2]))
   \<and> sale_type (fst (parse_html card_parser ''<html></html>'')) = Some ''Sold''
   \<and> price (fst (parse_html card_parser ''<html></html>'')) = None
   \<and> snd (parse_html card_parser ''<html></html>'')
       = [Error_parsing_HTML (ValueError (''1250'' @ [CHR 0xB2]))]"
proof -
  have p: "parse_price (card_parser ''<html></html>'') = Inl (ValueError (''1250'' @ [CHR 0xB2]))"
    by (simp add: card_parser_def price_of_card)
  have "parse_html card_parser ''<html></html>'' =
        (default_data\<lparr>sale_type := fst (parse_sale_info (card_parser ''<html></html>'')),
                      sale_date := snd (parse_sale_info (card_parser ''<html></html>''))\<rparr>,
         [Error_parsing_HTML (ValueError (''1250'' @ [CHR 0xB2]))])"
    using parse_html_keeps_earlier_fields [of card_parser "''<html></html>''"] p by blast
  then show ?thesis
    using p by (simp add: card_parser_def sale_info_of_card default_data_def)
qed

section \<open>Postcode extraction\<close>

lemma parse_address_trailing_digits:
  assumes "a = replace [CHR 0xC2] [] address0" and "isdigit (last_chars 4 a)"
  shows "parse_address address0 = (a, Some (last_chars 4 a))"
  using assms by (simp add: parse_address_def Let_def)

lemma parse_address_no_postcode:
  assumes "a = replace [CHR 0xC2] [] address0" and "\<not> isdigit (last_chars 4 a)"
    and "re_search postcode_regex a = None"
  shows "parse_address address0 = (a, None)"
  using assms by (simp add: parse_address_def Let_def)

text \<open>
  Claim C6: the postcode is the last four characters when they are all digits, else a run
  of four digits found by the pattern at the end of the string, else null. The slice
  \<^verbatim>\<open>address[-4:]\<close> of an address shorter than four characters is the whole address, so
  the address \<^verbatim>\<open>12\<close> passes the digit test and gets the postcode \<^verbatim>\<open>12\<close>: two characters,
  where the claim gives null, since the address has neither four trailing characters nor
  a run of four digits.
\<close>

theorem parse_address_short_digits: "parse_address ''12'' = (''12'', Some ''12'')"
  by code_simp

section \<open>Searching and splitting\<close>

lemma first_some_all_None: "(\<forall>x \<in> set xs. x = None) \<Longrightarrow> first_some xs = None"
  by (induction xs rule: first_some.induct) simp_all

lemma first_some_append_None:
  "(\<forall>x \<in> set xs. x = None) \<Longrightarrow> first_some (xs @ ys) = first_some ys"
  by (induction xs rule: first_some.induct) simp_all

lemma first_some_map_first:
  assumes "n0 < n" and "\<forall>i < n0. f i = None" and "f n0 = Some v"
  shows "first_some (map f [0 ..< n]) = Some v"
proof -
  have "[0 ..< n0 + (n - n0)] = [0 ..< n0] @ [n0 ..< n0 + (n - n0)]"
    by (rule upt_add_eq_append) simp
  moreover have "n0 + (n - n0) = n"
    using assms(1) by simp
  moreover have "[n0 ..< n] = n0 # [Suc n0 ..< n]"
    using assms(1) by (rule upt_conv_Cons)
  ultimately have "[0 ..< n] = [0 ..< n0] @ n0 # [Suc n0 ..< n]"
    by (simp only:)
  then have "map f [0 ..< n] = map f [0 ..< n0] @ Some v # map f [Suc n0 ..< n]"
    using assms(3) by simp
  moreover have "\<forall>x \<in> set (map f [0 ..< n0]). x = None"
    using assms(2) by auto
  ultimately show ?thesis
    by (simp add: first_some_append_None)
qed

lemma first_some_map_none:
  assumes "\<forall>i < n. f i = None"
  shows "first_some (map f [0 ..< n]) = None"
  using assms by (intro first_some_all_None) auto

lemma first_some_SomeD:
  "first_some xs = Some v \<Longrightarrow> \<exists>i < length xs. xs ! i = Some v \<and> (\<forall>j < i. xs ! j = None)"
proof (induction xs rule: first_some.induct)
  case 1
  then show ?case by simp
next
  case (2 xs)
  then obtain i where i: "i < length xs" "xs ! i = Some v" "\<forall>j < i. xs ! j = None"
    by auto
  have "\<forall>j < Suc i. (None # xs) ! j = None"
    using i(3) by (simp add: nth_Cons')
  then show ?case
    using i(1,2) by (intro exI [of _ "Suc i"]) simp
next
  case (3 x xs)
  then show ?case
    by (intro exI [of _ 0]) simp
qed

lemma first_some_map_SomeD:
  assumes "first_some (map f [0 ..< n]) = Some v"
  shows "\<exists>i < n. f i = Some v \<and> (\<forall>j < i. f j = None)"
proof -
  obtain i where i: "i < n" "map f [0 ..< n] ! i = Some v" "\<forall>j < i. map f [0 ..< n] ! j = None"
    using first_some_SomeD [OF assms] by auto
  have "f i = Some v"
    using i(1,2) by simp
  moreover have "\<forall>j < i. f j = None"
    using i(1,3) by simp
  ultimately show ?thesis
    using i(1) by blast
qed

lemma contains_set: "contains sub s \<Longrightarrow> set sub \<subseteq> set s"
proof (induction s)
  case Nil
  then show ?case by simp
next
  case (Cons a s)
  from Cons.prems have "prefix sub (a # s) \<or> contains sub s"
    by simp
  then show ?case
  proof
    assume "prefix sub (a # s)"
    then show ?thesis by (rule set_mono_prefix)
  next
    assume "contains sub s"
    then show ?thesis using Cons.IH by auto
  qed
qed

lemma py_split_nonempty:
  assumes "\<exists>c \<in> set t. \<not> isspace_char c"
  shows "\<exists>tok rest. py_split t = tok # rest"
proof -
  have "dropWhile isspace_char t \<noteq> []"
    using assms by (simp add: dropWhile_eq_Nil_conv)
  then obtain c cs where "dropWhile isspace_char t = c # cs"
    by (cases "dropWhile isspace_char t") auto
  then show ?thesis
    by (subst py_split.simps) simp
qed

lemma keyword_gives_token:
  assumes "contains ''Beds'' t \<or> contains ''Bath'' t \<or> contains ''Parking'' t"
  shows "\<exists>tok rest. py_split t = tok # rest"
proof (rule py_split_nonempty)
  have "set ''Beds'' \<subseteq> set t \<or> set ''Bath'' \<subseteq> set t \<or> set ''Parking'' \<subseteq> set t"
    using assms contains_set by blast
  then have "CHR ''B'' \<in> set t \<or> CHR ''P'' \<in> set t"
    by auto
  moreover have "\<not> isspace_char (CHR ''B'')" "\<not> isspace_char (CHR ''P'')"
    by (simp_all add: isspace_char_def)
  ultimately show "\<exists>c \<in> set t. \<not> isspace_char c"
    by blast
qed

lemma leading_int_token:
  assumes "py_split t = tok # rest"
  shows "leading_int t =
     (if isdigit tok
      then (if int_max_str_digits < length (takeWhile isdecimal_char tok)
            then Inl (ValueError_limit (length (takeWhile isdecimal_char tok)))
            else if list_all isdecimal_char tok then Inr (Some (decimal_value tok))
            else Inl (ValueError tok))
      else Inr None)"
  using assms by (simp add: leading_int_def py_int_isdigit)

section \<open>The first run of digits\<close>

lemma match_here_digits:
  "match_here digits_regex s i =
     (if takeWhile isdecimal_char (drop i s) = [] then None
      else Some (i + length (takeWhile isdecimal_char (drop i s))))"
proof -
  define avail where "avail = length (takeWhile isdecimal_char (drop i s))"
  have m: "match_here digits_regex s i = first_some (map (\<lambda>k. Some (i + k)) (rev [1 ..< Suc avail]))"
    by (simp add: digits_regex_def avail_def match_here.simps(4))
  show ?thesis
  proof (cases avail)
    case 0
    then show ?thesis
      using m by (simp add: avail_def)
  next
    case (Suc n)
    then have "rev [1 ..< Suc avail] = avail # rev [1 ..< avail]"
      by simp
    then have "match_here digits_regex s i = Some (i + avail)"
      using m by simp
    moreover have "takeWhile isdecimal_char (drop i s) \<noteq> []"
      using Suc by (auto simp: avail_def)
    ultimately show ?thesis
      by (simp add: avail_def)
  qed
qed

lemma no_digit_before_run:
  assumes "i < length (takeWhile (\<lambda>c. \<not> isdecimal_char c) t)"
  shows "takeWhile isdecimal_char (drop i t) = []"
proof -
  have "i < length t"
    using assms length_takeWhile_le [of "\<lambda>c. \<not> isdecimal_char c" t] by simp
  moreover have "\<not> isdecimal_char (t ! i)"
    using assms by (metis nth_mem set_takeWhileD takeWhile_nth)
  moreover have "drop i t = t ! i # drop (Suc i) t"
    using \<open>i < length t\<close> by (simp add: Cons_nth_drop_Suc)
  ultimately show ?thesis
    by simp
qed

lemma first_digit_run_drop:
  "first_digit_run t = takeWhile isdecimal_char (drop (length (takeWhile (\<lambda>c. \<not> isdecimal_char c) t)) t)"
  by (simp add: first_digit_run_def dropWhile_eq_drop)

lemma digits_search:
  "re_search digits_regex t =
     (if first_digit_run t = [] then None
      else Some (length (takeWhile (\<lambda>c. \<not> isdecimal_char c) t),
                 length (takeWhile (\<lambda>c. \<not> isdecimal_char c) t) + length (first_digit_run t)))"
proof -
  define n0 where "n0 = length (takeWhile (\<lambda>c. \<not> isdecimal_char c) t)"
  let ?f = "\<lambda>i. map_option (Pair i) (match_here digits_regex t i)"
  have before: "\<forall>i < n0. ?f i = None"
    using no_digit_before_run by (simp add: match_here_digits n0_def)
  have n0: "n0 \<le> length t"
    by (simp add: n0_def length_takeWhile_le)
  show ?thesis
  proof (cases "first_digit_run t = []")
    case True
    then have at: "?f n0 = None"
      by (simp add: match_here_digits first_digit_run_drop n0_def)
    have "\<forall>i < Suc (length t). ?f i = None"
    proof (intro allI impI)
      fix i assume "i < Suc (length t)"
      then consider "i < n0" | "i = n0" | "n0 < i" "i \<le> length t"
        by linarith
      then show "?f i = None"
      proof cases
        case 1 then show ?thesis using before by simp
      next
        case 2 then show ?thesis using at by simp
      next
        case 3
        have "dropWhile (\<lambda>c. \<not> isdecimal_char c) t \<noteq> []"
          using 3 n0 by (simp add: n0_def dropWhile_eq_drop)
        then have "isdecimal_char (hd (dropWhile (\<lambda>c. \<not> isdecimal_char c) t))"
          using hd_dropWhile [of "\<lambda>c. \<not> isdecimal_char c" t] by simp
        then have "first_digit_run t \<noteq> []"
          using \<open>dropWhile (\<lambda>c. \<not> isdecimal_char c) t \<noteq> []\<close>
          by (cases "dropWhile (\<lambda>c. \<not> isdecimal_char c) t") (simp_all add: first_digit_run_def)
        with True show ?thesis by simp
      qed
    qed
    then have "re_search digits_regex t = None"
      unfolding re_search_def by (rule first_some_map_none)
    with True show ?thesis by simp
  next
    case False
    then have "n0 < length t"
      using n0 by (cases "n0 = length t") (simp_all add: first_digit_run_drop n0_def [symmetric])
    moreover have "?f n0 = Some (n0, n0 + length (first_digit_run t))"
      using False by (simp add: match_here_digits first_digit_run_drop n0_def)
    ultimately have "re_search digits_regex t = Some (n0, n0 + length (first_digit_run t))"
      unfolding re_search_def using before by (intro first_some_map_first [of n0]) simp_all
    with False show ?thesis by (simp add: n0_def)
  qed
qed

lemma digits_group:
  "match_group t (length (takeWhile (\<lambda>c. \<not> isdecimal_char c) t),
                  length (takeWhile (\<lambda>c. \<not> isdecimal_char c) t) + length (first_digit_run t))
   = first_digit_run t"
  by (simp add: match_group_def first_digit_run_drop takeWhile_eq_take [symmetric])

lemma area_value:
  "feature_value Area t =
     (if first_digit_run t = [] then Inr None
      else if int_max_str_digits < length (first_digit_run t)
      then Inl (ValueError_limit (length (first_digit_run t)))
      else Inr (Some (decimal_value (first_digit_run t))))"
proof (cases "first_digit_run t = []")
  case True
  then show ?thesis
    by (simp add: feature_value_def digits_search)
next
  case False
  have all: "list_all isdecimal_char (first_digit_run t)"
    by (auto simp: first_digit_run_def list_all_iff dest: set_takeWhileD)
  have "py_int (first_digit_run t) =
      (if int_max_str_digits < length (first_digit_run t)
       then Inl (ValueError_limit (length (first_digit_run t)))
       else Inr (decimal_value (first_digit_run t)))"
    using all False by (simp add: py_int_decimal py_int_decimal_long)
  then show ?thesis
    using False by (simp add: feature_value_def digits_search digits_group)
qed

section \<open>Feature chips\<close>

lemma feature_step_by_field:
  "feature_step t d =
     (case feature_field t of
        None \<Rightarrow> Inr d
      | Some f \<Rightarrow> (case feature_value f t of Inl e \<Rightarrow> Inl e | Inr v \<Rightarrow> Inr (set_field f v d)))"
  by (cases d rule: prod_cases4)
    (simp add: feature_step_def feature_field_def feature_value_def split: option.splits sum.splits)

lemma get_set_same: "get_field f (set_field f v d) = v"
  by (cases d rule: prod_cases4; cases f) simp_all

lemma get_set_other: "g \<noteq> f \<Longrightarrow> get_field g (set_field f v d) = get_field g d"
  by (cases d rule: prod_cases4; cases f; cases g) simp_all

lemma keyword_value:
  assumes "f \<noteq> Area" and "py_split t = tok # rest"
  shows "feature_value f t =
     (if isdigit tok
      then (if int_max_str_digits < length (takeWhile isdecimal_char tok)
            then Inl (ValueError_limit (length (takeWhile isdecimal_char tok)))
            else if list_all isdecimal_char tok then Inr (Some (decimal_value tok))
            else Inl (ValueError tok))
      else Inr None)"
  using assms by (simp add: feature_value_def leading_int_token)

lemma isdigit_decimal: "tok \<noteq> [] \<Longrightarrow> list_all isdecimal_char tok \<Longrightarrow> isdigit tok"
  by (auto simp: isdigit_def list_all_iff isdecimal_imp_isdigit_char)

lemma keyword_value_decimal:
  assumes "f \<noteq> Area" and "py_split t = tok # rest"
    and "tok \<noteq> []" and "list_all isdecimal_char tok" and "length tok \<le> int_max_str_digits"
  shows "feature_value f t = Inr (Some (decimal_value tok))"
proof -
  have tw: "takeWhile isdecimal_char tok = tok"
    using assms(4) by (simp add: takeWhile_eq_all_conv list_all_iff)
  show ?thesis
    unfolding keyword_value [OF assms(1,2)] tw using assms(3,4,5) by (simp add: isdigit_decimal)
qed

lemma keyword_value_not_digit:
  assumes "f \<noteq> Area" and "py_split t = tok # rest" and "\<not> isdigit tok"
  shows "feature_value f t = Inr None"
  unfolding keyword_value [OF assms(1,2)] using assms(3) by simp

lemma feature_loop_append:
  "feature_loop (xs @ ys) d =
     (case feature_loop xs d of Inl e \<Rightarrow> Inl e | Inr d' \<Rightarrow> feature_loop ys d')"
  by (induction xs arbitrary: d) (auto split: sum.splits)

lemma parse_property_details_chips:
  "parse_property_details (html\<lparr>features_wrapper := Some chips\<rparr>)
     = feature_loop chips (None, None, None, None)"
  by (simp add: parse_property_details_def)

lemma parse_property_details_next_chip:
  assumes "parse_property_details (html\<lparr>features_wrapper := Some chips\<rparr>) = Inr d"
  shows "parse_property_details (html\<lparr>features_wrapper := Some (chips @ [t])\<rparr>) = feature_step t d"
proof -
  have "feature_loop chips (None, None, None, None) = Inr d"
    using assms by (simp add: parse_property_details_chips)
  then show ?thesis
    by (cases "feature_step t d") (simp_all add: parse_property_details_chips feature_loop_append)
qed

text \<open>
  Claim C8, as amended: the extractor \<^verbatim>\<open>parse_property_details\<close> classifies a chip by the
  first keyword, in the order Beds, Bath, Parking, area marker, that its text contains. The
  statement is about a document whose chips are \<open>chips\<close> followed by the chip \<open>t\<close>, where
  the chips before \<open>t\<close> have left the four values \<open>(b, ba, p, a)\<close>. For the first three
  keywords the text of \<open>t\<close> has a leading token; if that token is a run of the digits 0 to
  9, of at most \<open>int_max_str_digits\<close> digits, the field of the keyword becomes its value,
  and if the token fails \<^verbatim>\<open>isdigit()\<close>, the field becomes null. A chip with the area marker
  and none of the three keywords sets the area to the value of the first run of digits of
  its text (of at most \<open>int_max_str_digits\<close> digits), or to null when the text has no digit.
  A chip without any of the four markers leaves the four values as they are. In each case
  nothing is raised and the other three values are unchanged.
\<close>

theorem feature_classification:
  assumes "parse_property_details (html\<lparr>features_wrapper := Some chips\<rparr>) = Inr (b, ba, p, a)"
  shows
  "(contains ''Beds'' t \<longrightarrow>
      (\<exists>tok rest. py_split t = tok # rest)
    \<and> (\<forall>tok rest. py_split t = tok # rest \<and> tok \<noteq> [] \<and> list_all isdecimal_char tok
            \<and> length tok \<le> int_max_str_digits \<longrightarrow>
          parse_property_details (html\<lparr>features_wrapper := Some (chips @ [t])\<rparr>)
            = Inr (Some (decimal_value tok), ba, p, a))
    \<and> (\<forall>tok rest. py_split t = tok # rest \<and> \<not> isdigit tok \<longrightarrow>
          parse_property_details (html\<lparr>features_wrapper := Some (chips @ [t])\<rparr>)
            = Inr (None, ba, p, a)))
 \<and> (\<not> contains ''Beds'' t \<and> contains ''Bath'' t \<longrightarrow>
      (\<exists>tok rest. py_split t = tok # rest)
    \<and> (\<forall>tok rest. py_split t = tok # rest \<and> tok \<noteq> [] \<and> list_all isdecimal_char tok
            \<and> length tok \<le> int_max_str_digits \<longrightarrow>
          parse_property_details (html\<lparr>features_wrapper := Some (chips @ [t])\<rparr>)
            = Inr (b, Some (decimal_value tok), p, a))
    \<and> (\<forall>tok rest. py_split t = tok # rest \<and> \<not> isdigit tok \<longrightarrow>
          parse_property_details (html\<lparr>features_wrapper := Some (chips @ [t])\<rparr>)
            = Inr (b, None, p, a)))
 \<and> (\<not> contains ''Beds'' t \<and> \<not> contains ''Bath'' t \<and> contains ''Parking'' t \<longrightarrow>
      (\<exists>tok rest. py_split t = tok # rest)
    \<and> (\<forall>tok rest. py_split t = tok # rest \<and> tok \<noteq> [] \<and> list_all isdecimal_char tok
            \<and> length tok \<le> int_max_str_digits \<longrightarrow>
          parse_property_details (html\<lparr>features_wrapper := Some (chips @ [t])\<rparr>)
            = Inr (b, ba, Some (decimal_value tok), a))
    \<and> (\<forall>tok rest. py_split t = tok # rest \<and> \<not> isdigit tok \<longrightarrow>
          parse_property_details (html\<lparr>features_wrapper := Some (chips @ [t])\<rparr>)
            = Inr (b, ba, None, a)))
 \<and> (\<not> contains ''Beds'' t \<and> \<not> contains ''Bath'' t \<and> \<not> contains ''Parking'' t
      \<and> contains area_marker t \<and> length (first_digit_run t) \<le> int_max_str_digits \<longrightarrow>
      parse_property_details (html\<lparr>features_wrapper := Some (chips @ [t])\<rparr>) =
        Inr (b, ba, p, if first_digit_run t = [] then None
                       else Some (decimal_value (first_digit_run t))))
 \<and> (\<not> contains ''Beds'' t \<and> \<not> contains ''Bath'' t \<and> \<not> contains ''Parking'' t
      \<and> \<not> contains area_marker t \<longrightarrow>
      parse_property_details (html\<lparr>features_wrapper := Some (chips @ [t])\<rparr>) = Inr (b, ba, p, a))"
  unfolding parse_property_details_next_chip [OF assms]
proof (intro conjI impI allI)
  assume "contains ''Beds'' t"
  then show "\<exists>tok rest. py_split t = tok # rest"
    using keyword_gives_token by blast
next
  assume "\<not> contains ''Beds'' t \<and> contains ''Bath'' t"
  then show "\<exists>tok rest. py_split t = tok # rest"
    using keyword_gives_token by blast
next
  assume "\<not> contains ''Beds'' t \<and> \<not> contains ''Bath'' t \<and> contains ''Parking'' t"
  then show "\<exists>tok rest. py_split t = tok # rest"
    using keyword_gives_token by blast
next
  fix tok rest
  assume "contains ''Beds'' t"
    "py_split t = tok # rest \<and> tok \<noteq> [] \<and> list_all isdecimal_char tok
       \<and> length tok \<le> int_max_str_digits"
  then show "feature_step t (b, ba, p, a) = Inr (Some (decimal_value tok), ba, p, a)"
    by (simp add: feature_step_by_field feature_field_def keyword_value_decimal [where f = Bedrooms])
next
  fix tok rest
  assume "contains ''Beds'' t" "py_split t = tok # rest \<and> \<not> isdigit tok"
  then show "feature_step t (b, ba, p, a) = Inr (None, ba, p, a)"
    by (simp add: feature_step_by_field feature_field_def keyword_value_not_digit [where f = Bedrooms])
next
  fix tok rest
  assume "\<not> contains ''Beds'' t \<and> contains ''Bath'' t"
    "py_split t = tok # rest \<and> tok \<noteq> [] \<and> list_all isdecimal_char tok
       \<and> length tok \<le> int_max_str_digits"
  then show "feature_step t (b, ba, p, a) = Inr (b, Some (decimal_value tok), p, a)"
    by (simp add: feature_step_by_field feature_field_def keyword_value_decimal [where f = Baths])
next
  fix tok rest
  assume "\<not> contains ''Beds'' t \<and> contains ''Bath'' t" "py_split t = tok # rest \<and> \<not> isdigit tok"
  then show "feature_step t (b, ba, p, a) = Inr (b, None, p, a)"
    by (simp add: feature_step_by_field feature_field_def keyword_value_not_digit [where f = Baths])
next
  fix tok rest
  assume "\<not> contains ''Beds'' t \<and> \<not> contains ''Bath'' t \<and> contains ''Parking'' t"
    "py_split t = tok # rest \<and> tok \<noteq> [] \<and> list_all isdecimal_char tok
       \<and> length tok \<le> int_max_str_digits"
  then show "feature_step t (b, ba, p, a) = Inr (b, ba, Some (decimal_value tok), a)"
    by (simp add: feature_step_by_field feature_field_def keyword_value_decimal [where f = Parking])
next
  fix tok rest
  assume "\<not> contains ''Beds'' t \<and> \<not> contains ''Bath'' t \<and> contains ''Parking'' t"
    "py_split t = tok # rest \<and> \<not> isdigit tok"
  then show "feature_step t (b, ba, p, a) = Inr (b, ba, None, a)"
    by (simp add: feature_step_by_field feature_field_def keyword_value_not_digit [where f = Parking])
next
  assume "\<not> contains ''Beds'' t \<and> \<not> contains ''Bath'' t \<and> \<not> contains ''Parking'' t
      \<and> contains area_marker t \<and> length (first_digit_run t) \<le> int_max_str_digits"
  then show "feature_step t (b, ba, p, a) =
        Inr (b, ba, p, if first_digit_run t = [] then None
                       else Some (decimal_value (first_digit_run t)))"
    by (simp add: feature_step_by_field feature_field_def area_value)
next
  assume "\<not> contains ''Beds'' t \<and> \<not> contains ''Bath'' t \<and> \<not> contains ''Parking'' t
      \<and> \<not> contains area_marker t"
  then show "feature_step t (b, ba, p, a) = Inr (b, ba, p, a)"
    by (simp add: feature_step_by_field feature_field_def)
qed

text \<open>
  Claim C8 as stated fails: the chip \<^verbatim>\<open>2 Bath Beds\<close> contains \<^verbatim>\<open>Bath\<close> and has the leading
  token 2, and the number of baths stays null; the chip sets the bedrooms.
\<close>

theorem bath_chip_with_beds_sets_bedrooms:
  "contains ''Bath'' ''2 Bath Beds''
   \<and> py_split ''2 Bath Beds'' = [''2'', ''Bath'', ''Beds'']
   \<and> parse_property_details (listing_card\<lparr>features_wrapper := Some [''2 Bath Beds'']\<rparr>)
       = Inr (Some 2, None, None, None)"
  by code_simp

theorem feature_classification_witness:
  "parse_property_details (listing_card\<lparr>features_wrapper := Some [''2 Bath'']\<rparr>)
     = Inr (None, Some 2, None, None)
   \<and> contains ''Beds'' ''3 Beds''
   \<and> py_split ''3 Beds'' = [''3'', ''Beds'']
   \<and> parse_property_details (listing_card\<lparr>features_wrapper := Some [''2 Bath'', ''3 Beds'']\<rparr>)
       = Inr (Some 3, Some 2, None, None)
   \<and> contains area_marker (''120m'' @ [CHR 0xB2])
   \<and> parse_property_details
         (listing_card\<lparr>features_wrapper := Some [''2 Bath'', ''120m'' @ [CHR 0xB2]]\<rparr>)
       = Inr (None, Some 2, None, Some 120)"
proof -
  have before: "parse_property_details (listing_card\<lparr>features_wrapper := Some [''2 Bath'']\<rparr>)
      = Inr (None, Some 2, None, None)"
    by code_simp
  note fc = feature_classification [OF before]
  have c: "contains ''Beds'' ''3 Beds''"
    by simp
  have s: "py_split ''3 Beds'' = [''3'', ''Beds'']"
    by code_simp
  have d: "''3'' \<noteq> [] \<and> list_all isdecimal_char ''3'' \<and> length ''3'' \<le> int_max_str_digits"
    by (simp add: isdecimal_char_def int_max_str_digits_def)
  have v: "decimal_value ''3'' = 3"
    by (simp add: decimal_value_def digit_value_def)
  have 1: "parse_property_details (listing_card\<lparr>features_wrapper := Some ([''2 Bath''] @ [''3 Beds''])\<rparr>)
      = Inr (Some (decimal_value ''3''), Some 2, None, None)"
    using fc [of "''3 Beds''"] c s d by blast
  have n: "\<not> contains ''Beds'' (''120m'' @ [CHR 0xB2])" "\<not> contains ''Bath'' (''120m'' @ [CHR 0xB2])"
    "\<not> contains ''Parking'' (''120m'' @ [CHR 0xB2])"
    by simp_all
  have m: "contains area_marker (''120m'' @ [CHR 0xB2])"
    by (simp add: area_marker_def)
  have r: "first_digit_run (''120m'' @ [CHR 0xB2]) = ''120''"
    by (simp add: first_digit_run_def isdecimal_char_def)
  have l: "length (first_digit_run (''120m'' @ [CHR 0xB2])) \<le> int_max_str_digits"
    unfolding r by (simp add: int_max_str_digits_def)
  have w: "decimal_value ''120'' = 120"
    by (simp add: decimal_value_def digit_value_def)
  have 2: "parse_property_details
        (listing_card\<lparr>features_wrapper := Some ([''2 Bath''] @ [''120m'' @ [CHR 0xB2]])\<rparr>) =
        Inr (None, Some 2, None, if first_digit_run (''120m'' @ [CHR 0xB2]) = [] then None
                       else Some (decimal_value (first_digit_run (''120m'' @ [CHR 0xB2]))))"
    using fc [of "''120m'' @ [CHR 0xB2]"] n m l by blast
  have 3: "parse_property_details
        (listing_card\<lparr>features_wrapper := Some ([''2 Bath''] @ [''120m'' @ [CHR 0xB2]])\<rparr>)
      = Inr (None, Some 2, None, Some 120)"
    using 2 unfolding r by (simp add: w)
  show ?thesis
    using before c s 1 3 m v by simp
qed

text \<open>
  Claim C10: the extractor \<^verbatim>\<open>parse_property_details\<close> lets a chip assign at most one of the
  four values, the one of the first keyword that its text contains in the order Beds, Bath,
  Parking, area marker; so a chip with both \<^verbatim>\<open>Beds\<close> and \<^verbatim>\<open>Bath\<close> updates the bedrooms
  only. Whenever the extractor returns for a document with the chips \<open>chips\<close> and for the
  document with one more chip \<open>t\<close>, the two results differ at most in the value of the
  field that \<open>t\<close> is classified to. When the extractor returns, each value is the one given
  by the last chip classified to its field, or null when no chip is; and the extractor
  returns whenever no chip's extraction raises.
\<close>

theorem one_field_per_chip_last_chip_wins:
  "(\<forall>d d'. parse_property_details (html\<lparr>features_wrapper := Some chips\<rparr>) = Inr d
        \<and> parse_property_details (html\<lparr>features_wrapper := Some (chips @ [t])\<rparr>) = Inr d' \<longrightarrow>
      (case feature_field t of
         None \<Rightarrow> d' = d
       | Some f \<Rightarrow> feature_value f t = Inr (get_field f d')
                   \<and> (\<forall>g. g \<noteq> f \<longrightarrow> get_field g d' = get_field g d)))
   \<and> (contains ''Beds'' t \<longrightarrow> feature_field t = Some Bedrooms)
   \<and> (\<not> contains ''Beds'' t \<and> contains ''Bath'' t \<longrightarrow> feature_field t = Some Baths)
   \<and> (\<not> contains ''Beds'' t \<and> \<not> contains ''Bath'' t \<and> contains ''Parking'' t \<longrightarrow>
        feature_field t = Some Parking)
   \<and> (\<not> contains ''Beds'' t \<and> \<not> contains ''Bath'' t \<and> \<not> contains ''Parking'' t
        \<and> contains area_marker t \<longrightarrow> feature_field t = Some Area)
   \<and> (\<forall>d' f. parse_property_details (html\<lparr>features_wrapper := Some chips\<rparr>) = Inr d' \<longrightarrow>
        (filter (\<lambda>c. feature_field c = Some f) chips = [] \<longrightarrow> get_field f d' = None)
      \<and> (filter (\<lambda>c. feature_field c = Some f) chips \<noteq> [] \<longrightarrow>
           feature_value f (last (filter (\<lambda>c. feature_field c = Some f) chips))
             = Inr (get_field f d')))
   \<and> ((\<forall>c \<in> set chips. \<forall>f. feature_field c = Some f \<longrightarrow> (\<exists>v. feature_value f c = Inr v)) \<longrightarrow>
        (\<exists>d'. parse_property_details (html\<lparr>features_wrapper := Some chips\<rparr>) = Inr d'))"
proof -
  have step: "case feature_field t of
         None \<Rightarrow> d' = d
       | Some f \<Rightarrow> feature_value f t = Inr (get_field f d')
                   \<and> (\<forall>g. g \<noteq> f \<longrightarrow> get_field g d' = get_field g d)"
    if "feature_step t d = Inr d'" for t d d'
    using that
    by (auto simp: feature_step_by_field get_set_same get_set_other split: option.splits sum.splits)
  have next_chip: "case feature_field t of
         None \<Rightarrow> d' = d
       | Some f \<Rightarrow> feature_value f t = Inr (get_field f d')
                   \<and> (\<forall>g. g \<noteq> f \<longrightarrow> get_field g d' = get_field g d)"
    if "parse_property_details (html\<lparr>features_wrapper := Some chips\<rparr>) = Inr d"
      and "parse_property_details (html\<lparr>features_wrapper := Some (chips @ [t])\<rparr>) = Inr d'"
    for d d'
    using that(2) unfolding parse_property_details_next_chip [OF that(1)] by (rule step)
  have last: "(filter (\<lambda>c. feature_field c = Some f) chips = [] \<longrightarrow> get_field f d' = get_field f d)
      \<and> (filter (\<lambda>c. feature_field c = Some f) chips \<noteq> [] \<longrightarrow>
           feature_value f (last (filter (\<lambda>c. feature_field c = Some f) chips))
             = Inr (get_field f d'))"
    if "feature_loop chips d = Inr d'" for d d' f
    using that
  proof (induction chips arbitrary: d)
    case Nil
    then show ?case by simp
  next
    case (Cons c chips)
    then obtain d1 where s: "feature_step c d = Inr d1" and l: "feature_loop chips d1 = Inr d'"
      by (auto split: sum.splits)
    note ih = Cons.IH [OF l]
    note st = step [OF s]
    show ?case
    proof (cases "feature_field c = Some f")
      case True
      then have "feature_value f c = Inr (get_field f d1)"
        using st by simp
      then show ?thesis
        using True ih by auto
    next
      case False
      then have "get_field f d1 = get_field f d"
        using st by (auto split: option.splits)
      then show ?thesis
        using False ih by auto
    qed
  qed
  have last_chip: "(filter (\<lambda>c. feature_field c = Some f) chips = [] \<longrightarrow> get_field f d' = None)
      \<and> (filter (\<lambda>c. feature_field c = Some f) chips \<noteq> [] \<longrightarrow>
           feature_value f (last (filter (\<lambda>c. feature_field c = Some f) chips))
             = Inr (get_field f d'))"
    if "parse_property_details (html\<lparr>features_wrapper := Some chips\<rparr>) = Inr d'" for d' f
  proof -
    have "get_field f (None, None, None, None) = None"
      by (cases f) simp_all
    then show ?thesis
      using last [of "(None, None, None, None)" d' f] that
      by (simp add: parse_property_details_chips)
  qed
  have total: "\<exists>d'. feature_loop chips d = Inr d'"
    if "\<forall>c \<in> set chips. \<forall>f. feature_field c = Some f \<longrightarrow> (\<exists>v. feature_value f c = Inr v)" for d
    using that
  proof (induction chips arbitrary: d)
    case Nil
    show ?case by (rule exI [of _ d]) simp
  next
    case (Cons c chips)
    have "\<exists>d1. feature_step c d = Inr d1"
    proof (cases "feature_field c")
      case None
      then show ?thesis by (intro exI [of _ d]) (simp add: feature_step_by_field)
    next
      case (Some f)
      then obtain v where "feature_value f c = Inr v"
        using Cons.prems by auto
      then show ?thesis
        using Some by (intro exI [of _ "set_field f v d"]) (simp add: feature_step_by_field)
    qed
    then obtain d1 where "feature_step c d = Inr d1" ..
    moreover obtain d' where "feature_loop chips d1 = Inr d'"
      using Cons.IH [of d1] Cons.prems by auto
    ultimately show ?case by (intro exI [of _ d']) simp
  qed
  have returns: "\<exists>d'. parse_property_details (html\<lparr>features_wrapper := Some chips\<rparr>) = Inr d'"
    if "\<forall>c \<in> set chips. \<forall>f. feature_field c = Some f \<longrightarrow> (\<exists>v. feature_value f c = Inr v)"
    using total [OF that] by (simp add: parse_property_details_chips)
  have order: "(contains ''Beds'' t \<longrightarrow> feature_field t = Some Bedrooms)
   \<and> (\<not> contains ''Beds'' t \<and> contains ''Bath'' t \<longrightarrow> feature_field t = Some Baths)
   \<and> (\<not> contains ''Beds'' t \<and> \<not> contains ''Bath'' t \<and> contains ''Parking'' t \<longrightarrow>
        feature_field t = Some Parking)
   \<and> (\<not> contains ''Beds'' t \<and> \<not> contains ''Bath'' t \<and> \<not> contains ''Parking'' t
        \<and> contains area_marker t \<longrightarrow> feature_field t = Some Area)"
    by (simp add: feature_field_def)
  show ?thesis
    using next_chip last_chip returns order by blast
qed

theorem one_field_per_chip_last_chip_wins_witness:
  "parse_property_details (listing_card\<lparr>features_wrapper := Some [''3 Beds'', ''2 Bath'']\<rparr>)
     = Inr (Some 3, Some 2, None, None)
   \<and> parse_property_details
       (listing_card\<lparr>features_wrapper := Some [''3 Beds'', ''2 Bath'', ''4 Beds Bath'']\<rparr>)
     = Inr (Some 4, Some 2, None, None)
   \<and> contains ''Beds'' ''4 Beds Bath'' \<and> contains ''Bath'' ''4 Beds Bath''
   \<and> feature_field ''4 Beds Bath'' = Some Bedrooms
   \<and> feature_value Bedrooms ''4 Beds Bath'' = Inr (Some 4)
   \<and> get_field Baths (Some 4, Some 2, None, None) = get_field Baths (Some 3, Some 2, None, None)"
proof -
  let ?chips = "[''3 Beds'', ''2 Bath'']"
  let ?t = "''4 Beds Bath''"
  have before: "parse_property_details (listing_card\<lparr>features_wrapper := Some ?chips\<rparr>)
      = Inr (Some 3, Some 2, None, None)"
    by code_simp
  have after: "parse_property_details (listing_card\<lparr>features_wrapper := Some (?chips @ [?t])\<rparr>)
      = Inr (Some 4, Some 2, None, None)"
    by code_simp
  have c: "contains ''Beds'' ?t" "contains ''Bath'' ?t"
    by simp_all
  note inst = one_field_per_chip_last_chip_wins
      [where t = ?t and html = listing_card and chips = ?chips]
  have f: "feature_field ?t = Some Bedrooms"
    using inst [THEN conjunct2, THEN conjunct1] c(1) by simp
  have "case feature_field ?t of
         None \<Rightarrow> ((Some 4, Some 2, None, None) :: details) = (Some 3, Some 2, None, None)
       | Some f \<Rightarrow> feature_value f ?t = Inr (get_field f (Some 4, Some 2, None, None))
           \<and> (\<forall>g. g \<noteq> f \<longrightarrow> get_field g (Some 4, Some 2, None, None)
                               = get_field g (Some 3, Some 2, None, None))"
    by (rule inst [THEN conjunct1, THEN spec, THEN spec, THEN mp]) (use before after in blast)
  then have "feature_value Bedrooms ?t = Inr (get_field Bedrooms (Some 4, Some 2, None, None))
      \<and> get_field Baths (Some 4, Some 2, None, None) = get_field Baths (Some 3, Some 2, None, None)"
    unfolding f by simp
  then show ?thesis
    using before after c f by simp
qed

section \<open>The date pattern\<close>

lemma first_some_single: "first_some [x] = x"
  by (cases x) simp_all

lemma run_length:
  "n \<le> length (takeWhile P xs) \<longleftrightarrow> n \<le> length xs \<and> list_all P (take n xs)"
proof (induction xs arbitrary: n)
  case Nil
  then show ?case by simp
next
  case (Cons x xs)
  show ?case
  proof (cases n)
    case 0
    then show ?thesis by simp
  next
    case (Suc k)
    then show ?thesis using Cons.IH [of k] by simp
  qed
qed

lemma match_fixed:
  "match_here (Repeat cls n (Some n) # r) s i =
     (if n \<le> length (drop i s) \<and> list_all cls (take n (drop i s))
      then match_here r s (i + n) else None)"
proof -
  define avail where "avail = length (takeWhile cls (drop i s))"
  have m: "match_here (Repeat cls n (Some n) # r) s i
      = first_some (map (\<lambda>k. match_here r s (i + k)) (rev [n ..< Suc (min n avail)]))"
    by (simp add: match_here.simps(4) avail_def)
  have c: "n \<le> avail \<longleftrightarrow> n \<le> length (drop i s) \<and> list_all cls (take n (drop i s))"
    unfolding avail_def by (rule run_length)
  show ?thesis
  proof (cases "n \<le> avail")
    case True
    then have "[n ..< Suc (min n avail)] = [n]"
      by (simp add: min_absorb1)
    then have "match_here (Repeat cls n (Some n) # r) s i = match_here r s (i + n)"
      unfolding m by (simp add: first_some_single)
    moreover have "n \<le> length (drop i s) \<and> list_all cls (take n (drop i s))"
      using True c by blast
    then have "(if n \<le> length (drop i s) \<and> list_all cls (take n (drop i s))
      then match_here r s (i + n) else None) = match_here r s (i + n)"
      by (rule if_P)
    ultimately show ?thesis
      by (simp only:)
  next
    case False
    then have "[n ..< Suc (min n avail)] = []"
      by simp
    then have "match_here (Repeat cls n (Some n) # r) s i = None"
      unfolding m by simp
    moreover have "\<not> (n \<le> length (drop i s) \<and> list_all cls (take n (drop i s)))"
      using False c by blast
    then have "(if n \<le> length (drop i s) \<and> list_all cls (take n (drop i s))
      then match_here r s (i + n) else None) = None"
      by (rule if_not_P)
    ultimately show ?thesis
      by (simp only:)
  qed
qed

lemma nested_if4:
  "(if A then if B then if C then if D then x else None else None else None else None)
   = (if A \<and> B \<and> C \<and> D then x else None)"
  by simp

lemma match_date_tail:
  "match_here [Repeat (\<lambda>c. c = CHR '' '') 1 (Some 1), Repeat isword_char 3 (Some 3),
               Repeat (\<lambda>c. c = CHR '' '') 1 (Some 1), Repeat isdecimal_char 4 (Some 4)] s p
   = (if 1 \<le> length (drop p s) \<and> list_all (\<lambda>c. c = CHR '' '') (take 1 (drop p s))
        \<and> 3 \<le> length (drop (p + 1) s) \<and> list_all isword_char (take 3 (drop (p + 1) s))
        \<and> 1 \<le> length (drop (p + 4) s) \<and> list_all (\<lambda>c. c = CHR '' '') (take 1 (drop (p + 4) s))
        \<and> 4 \<le> length (drop (p + 5) s) \<and> list_all isdecimal_char (take 4 (drop (p + 5) s))
      then Some (p + 9) else None)"
proof -
  have a: "p + 1 + 3 = p + 4" "p + 4 + 1 = p + 5" "p + 5 + 4 = p + 9"
    by simp_all
  show ?thesis
    unfolding match_fixed a match_here.simps(1) nested_if4 by (simp only: conj_assoc)
qed

lemma take_split5:
  "k + 9 \<le> length x \<Longrightarrow>
   take (k + 9) x = take k x @ take 1 (drop k x) @ take 3 (drop (k + 1) x)
      @ take 1 (drop (k + 4) x) @ take 4 (drop (k + 5) x)"
proof -
  have "take (k + 9) x = take (k + (1 + (3 + (1 + 4)))) x"
    by simp
  also have "\<dots> = take k x @ take 1 (drop k x) @ take 3 (drop (k + 1) x)
      @ take 1 (drop (k + 4) x) @ take 4 (drop (k + 5) x)"
    unfolding take_add drop_drop by (simp add: add.commute)
  finally show ?thesis .
qed

lemma take_one_space:
  "1 \<le> length v \<Longrightarrow> list_all (\<lambda>c. c = CHR '' '') (take 1 v) \<Longrightarrow> take 1 v = '' ''"
  by (cases v) simp_all

lemma first_some_in: "first_some xs = Some v \<Longrightarrow> Some v \<in> set xs"
  by (induction xs rule: first_some.induct) auto

lemma first_some_NoneD: "first_some xs = None \<Longrightarrow> x \<in> set xs \<Longrightarrow> x = None"
  by (induction xs rule: first_some.induct) auto

lemma date_shape_from_runs:
  assumes k: "k = 1 \<or> k = 2" and "k \<le> length x" and d1: "list_all isdecimal_char (take k x)"
    and s1: "1 \<le> length (drop k x)" "list_all (\<lambda>c. c = CHR '' '') (take 1 (drop k x))"
    and w: "3 \<le> length (drop (k + 1) x)" "list_all isword_char (take 3 (drop (k + 1) x))"
    and s2: "1 \<le> length (drop (k + 4) x)" "list_all (\<lambda>c. c = CHR '' '') (take 1 (drop (k + 4) x))"
    and d2: "4 \<le> length (drop (k + 5) x)" "list_all isdecimal_char (take 4 (drop (k + 5) x))"
  shows "is_date (take (k + 9) x)" and "k + 9 \<le> length x"
proof -
  show len: "k + 9 \<le> length x"
    using d2(1) by simp
  have "take (k + 9) x = take k x @ '' '' @ take 3 (drop (k + 1) x) @ '' '' @ take 4 (drop (k + 5) x)"
    using take_split5 [OF len] take_one_space [OF s1] take_one_space [OF s2] by simp
  moreover have "length (take k x) = 1 \<or> length (take k x) = 2"
    using k len by auto
  moreover have "length (take 3 (drop (k + 1) x)) = 3" "length (take 4 (drop (k + 5) x)) = 4"
    using len by simp_all
  ultimately show "is_date (take (k + 9) x)"
    unfolding is_date_def using d1 w(2) d2(2) by blast
qed

lemma match_date_unfold:
  "match_here sale_date_regex s i =
     first_some (map (\<lambda>k. match_here
        [Repeat (\<lambda>c. c = CHR '' '') 1 (Some 1), Repeat isword_char 3 (Some 3),
         Repeat (\<lambda>c. c = CHR '' '') 1 (Some 1), Repeat isdecimal_char 4 (Some 4)] s (i + k))
       (rev [1 ..< Suc (min 2 (length (takeWhile isdecimal_char (drop i s))))]))"
  by (simp add: sale_date_regex_def match_here.simps(4) del: upt_Suc)

lemma match_date_sound:
  assumes "match_here sale_date_regex s i = Some j"
  shows "i < j \<and> j \<le> length s \<and> is_date (take (j - i) (drop i s))"
proof -
  define a where "a = length (takeWhile isdecimal_char (drop i s))"
  let ?T = "[Repeat (\<lambda>c. c = CHR '' '') 1 (Some 1), Repeat isword_char 3 (Some 3),
         Repeat (\<lambda>c. c = CHR '' '') 1 (Some 1), Repeat isdecimal_char 4 (Some 4)]"
  have "Some j \<in> set (map (\<lambda>k. match_here ?T s (i + k)) (rev [1 ..< Suc (min 2 a)]))"
    using assms unfolding match_date_unfold a_def by (rule first_some_in)
  then have "Some j \<in> (\<lambda>k. match_here ?T s (i + k)) ` set [1 ..< Suc (min 2 a)]"
    by (simp only: set_map set_rev)
  then obtain k where kk: "k \<in> set [1 ..< Suc (min 2 a)]" and m0: "Some j = match_here ?T s (i + k)"
    by (rule imageE)
  have k: "1 \<le> k" "k \<le> 2" "k \<le> a"
    using kk by auto
  have m: "match_here ?T s (i + k) = Some j"
    using m0 by (rule sym)
  let ?C = "1 \<le> length (drop (i + k) s) \<and> list_all (\<lambda>c. c = CHR '' '') (take 1 (drop (i + k) s))
        \<and> 3 \<le> length (drop (i + k + 1) s) \<and> list_all isword_char (take 3 (drop (i + k + 1) s))
        \<and> 1 \<le> length (drop (i + k + 4) s) \<and> list_all (\<lambda>c. c = CHR '' '') (take 1 (drop (i + k + 4) s))
        \<and> 4 \<le> length (drop (i + k + 5) s) \<and> list_all isdecimal_char (take 4 (drop (i + k + 5) s))"
  have ite: "(if ?C then Some (i + k + 9) else None) = Some j"
    using m unfolding match_date_tail .
  have C: ?C
    using ite by (metis option.distinct(1))
  have j: "j = i + k + 9"
    using ite C by (metis option.inject)
  have run: "k \<le> length (drop i s)" "list_all isdecimal_char (take k (drop i s))"
    using k(3) unfolding a_def run_length by blast+
  have sh: "drop (i + k) s = drop k (drop i s)" "drop (i + k + 1) s = drop (k + 1) (drop i s)"
    "drop (i + k + 4) s = drop (k + 4) (drop i s)" "drop (i + k + 5) s = drop (k + 5) (drop i s)"
    by (simp_all add: ac_simps)
  have k12: "k = 1 \<or> k = 2"
    using k(1,2) by auto
  note C' = C [unfolded sh]
  have d: "is_date (take (k + 9) (drop i s))" and l: "k + 9 \<le> length (drop i s)"
    using date_shape_from_runs [OF k12 run(1) run(2)] C' by blast+
  have "j - i = k + 9"
    using j by simp
  moreover have "j \<le> length s"
    using l j by simp
  ultimately show ?thesis
    using d j by simp
qed

lemma space_not_decimal: "\<not> isdecimal_char (CHR '' '')"
  by (simp add: isdecimal_char_def)

lemma match_date_complete:
  assumes "is_date d" and "prefix d (drop i s)"
  shows "match_here sale_date_regex s i = Some (i + length d)"
proof -
  let ?T = "[Repeat (\<lambda>c. c = CHR '' '') 1 (Some 1), Repeat isword_char 3 (Some 3),
         Repeat (\<lambda>c. c = CHR '' '') 1 (Some 1), Repeat isdecimal_char 4 (Some 4)]"
  obtain ds m y where d: "d = ds @ '' '' @ m @ '' '' @ y"
    and lds: "length ds = 1 \<or> length ds = 2" and ads: "list_all isdecimal_char ds"
    and lm: "length m = 3" and am: "list_all isword_char m"
    and ly: "length y = 4" and ay: "list_all isdecimal_char y"
    using assms(1) unfolding is_date_def by blast
  obtain rest where x: "drop i s = d @ rest"
    using assms(2) by (auto elim: prefixE)
  obtain m1 m2 m3 where m: "m = [m1, m2, m3]"
    using lm by (auto simp: length_Suc_conv numeral_3_eq_3)
  obtain y1 y2 y3 y4 where y: "y = [y1, y2, y3, y4]"
    using ly by (auto simp: length_Suc_conv numeral_eq_Suc)
  have sh: "drop (i + n) s = drop n (d @ rest)" for n
    by (simp add: x [symmetric] add.commute)
  have tw: "takeWhile isdecimal_char (drop i s) = ds"
    using ads by (simp add: x d list_all_iff space_not_decimal)
  from lds show ?thesis
  proof
    assume l: "length ds = 1"
    then obtain c1 where ds: "ds = [c1]"
      by (auto simp: length_Suc_conv)
    have "match_here ?T s (i + 1) = Some (i + 1 + 9)"
      unfolding match_date_tail add.assoc sh
      using am ay by (simp add: d ds m y)
    moreover have "rev [1 ..< Suc (min 2 (length ds))] = [1]"
      by (simp add: ds)
    ultimately show ?thesis
      unfolding match_date_unfold tw by (simp add: first_some_single d ds m y)
  next
    assume l: "length ds = 2"
    then obtain c1 c2 where ds: "ds = [c1, c2]"
      by (auto simp: length_Suc_conv numeral_2_eq_2)
    have "match_here ?T s (i + 2) = Some (i + 2 + 9)"
      unfolding match_date_tail add.assoc sh
      using am ay by (simp add: d ds m y)
    moreover have "rev [1 ..< Suc (min 2 (length ds))] = [2, 1]"
      by (simp add: ds)
    ultimately show ?thesis
      unfolding match_date_unfold tw by (simp add: d ds m y)
  qed
qed

lemma date_search_None:
  assumes "re_search sale_date_regex t = None"
  shows "\<not> (\<exists>pre d post. t = pre @ d @ post \<and> is_date d)"
proof
  assume "\<exists>pre d post. t = pre @ d @ post \<and> is_date d"
  then obtain pre d post where t: "t = pre @ d @ post" and d: "is_date d"
    by blast
  have "prefix d (drop (length pre) t)"
    by (simp add: t)
  then have m: "match_here sale_date_regex t (length pre) = Some (length pre + length d)"
    using d by (rule match_date_complete [rotated])
  let ?f = "\<lambda>i. map_option (Pair i) (match_here sale_date_regex t i)"
  have "length pre \<in> set [0 ..< Suc (length t)]"
    by (simp add: t)
  then have "?f (length pre) \<in> set (map ?f [0 ..< Suc (length t)])"
    unfolding set_map by (rule imageI)
  then have "?f (length pre) = None"
    using assms unfolding re_search_def by (rule first_some_NoneD [rotated])
  then show False
    using m by simp
qed

lemma date_search_Some:
  assumes "re_search sale_date_regex t = Some (i, j)"
  shows "i < j \<and> j \<le> length t \<and> is_date (take (j - i) (drop i t))
     \<and> (\<forall>pre d post. t = pre @ d @ post \<and> is_date d \<longrightarrow> i \<le> length pre)"
proof -
  let ?f = "\<lambda>i. map_option (Pair i) (match_here sale_date_regex t i)"
  obtain i0 where i0: "i0 < Suc (length t)" "?f i0 = Some (i, j)" "\<forall>i' < i0. ?f i' = None"
    using first_some_map_SomeD [OF assms [unfolded re_search_def]] by blast
  have m: "match_here sale_date_regex t i = Some j" and e: "i0 = i"
    using i0(2) by auto
  have leftmost: "i \<le> length pre" if "t = pre @ d @ post" "is_date d" for pre d post
  proof (rule ccontr)
    assume "\<not> i \<le> length pre"
    then have "?f (length pre) = None"
      using i0(3) e by simp
    moreover have "prefix d (drop (length pre) t)"
      by (simp add: that(1))
    then have "match_here sale_date_regex t (length pre) = Some (length pre + length d)"
      using that(2) by (rule match_date_complete [rotated])
    ultimately show False by simp
  qed
  show ?thesis
    using match_date_sound [OF m] leftmost by blast
qed

text \<open>
  Claim C7, as amended: the text of the sale-info element is trimmed and searched for the
  date pattern. If the trimmed text contains a date, the sale date is its leftmost date
  and the sale type is the trimmed text with every occurrence of that date removed,
  trimmed again; if it contains none, the sale type is the whole trimmed text and the sale
  date is null; if the element is absent, both are null. A date is what the pattern of the
  source matches, see \<open>is_date\<close>: the three characters between the spaces are any word
  characters, not only a month abbreviation.
\<close>

theorem sale_info_split:
  "(sale_info_elem html = None \<longrightarrow> parse_sale_info html = (None, None))
   \<and> (\<forall>text. sale_info_elem html = Some text
          \<and> (\<exists>pre d post. strip text = pre @ d @ post \<and> is_date d) \<longrightarrow>
        (\<exists>pre d post. strip text = pre @ d @ post \<and> is_date d
           \<and> (\<forall>pre' d' post'. strip text = pre' @ d' @ post' \<and> is_date d' \<longrightarrow>
                 length pre \<le> length pre')
           \<and> parse_sale_info html = (Some (strip (replace d [] (strip text))), Some d)))
   \<and> (\<forall>text. sale_info_elem html = Some text
          \<and> \<not> (\<exists>pre d post. strip text = pre @ d @ post \<and> is_date d) \<longrightarrow>
        parse_sale_info html = (Some (strip text), None))"
proof (intro conjI allI impI)
  assume "sale_info_elem html = None"
  then show "parse_sale_info html = (None, None)"
    by (simp add: parse_sale_info_def)
next
  fix raw
  assume a: "sale_info_elem html = Some raw
          \<and> \<not> (\<exists>pre d post. strip raw = pre @ d @ post \<and> is_date d)"
  have "re_search sale_date_regex (strip raw) = None"
  proof (cases "re_search sale_date_regex (strip raw)")
    case None
    then show ?thesis .
  next
    case (Some m)
    obtain i j where m: "m = (i, j)" by (cases m)
    have s: "i < j" "j \<le> length (strip raw)" "is_date (take (j - i) (drop i (strip raw)))"
      using date_search_Some [OF Some [unfolded m]] by blast+
    have "strip raw = take i (strip raw) @ take (j - i) (drop i (strip raw)) @ drop j (strip raw)"
      using s(1,2) by (metis append_take_drop_id drop_drop le_add_diff_inverse2 less_imp_le_nat)
    then show ?thesis
      using a s(3) by blast
  qed
  then show "parse_sale_info html = (Some (strip raw), None)"
    using a by (simp add: parse_sale_info_def)
next
  fix raw
  assume a: "sale_info_elem html = Some raw
          \<and> (\<exists>pre d post. strip raw = pre @ d @ post \<and> is_date d)"
  then obtain m where "re_search sale_date_regex (strip raw) = Some m"
    using date_search_None [of "strip raw"] by (cases "re_search sale_date_regex (strip raw)") auto
  moreover obtain i j where m: "m = (i, j)" by (cases m)
  ultimately have r: "re_search sale_date_regex (strip raw) = Some (i, j)"
    by simp
  define d where "d = take (j - i) (drop i (strip raw))"
  have s: "i < j" "j \<le> length (strip raw)" "is_date d"
    and leftmost: "\<forall>pre' d' post'. strip raw = pre' @ d' @ post' \<and> is_date d' \<longrightarrow> i \<le> length pre'"
    using date_search_Some [OF r] unfolding d_def by blast+
  define pre where "pre = take i (strip raw)"
  define post where "post = drop j (strip raw)"
  have e1: "strip raw = pre @ d @ post"
    unfolding d_def pre_def post_def using s(1,2)
    by (metis append_take_drop_id drop_drop le_add_diff_inverse2 less_imp_le_nat)
  have e2: "length pre = i"
    using s(1,2) by (simp add: pre_def)
  have e3: "\<forall>pre' d' post'. strip raw = pre' @ d' @ post' \<and> is_date d' \<longrightarrow> length pre \<le> length pre'"
    using leftmost unfolding e2 .
  have e4: "parse_sale_info html = (Some (strip (replace d [] (strip raw))), Some d)"
    using a r by (simp add: parse_sale_info_def match_group_def d_def Let_def)
  show "\<exists>pre d post. strip raw = pre @ d @ post \<and> is_date d
           \<and> (\<forall>pre' d' post'. strip raw = pre' @ d' @ post' \<and> is_date d' \<longrightarrow>
                 length pre \<le> length pre')
           \<and> parse_sale_info html = (Some (strip (replace d [] (strip raw))), Some d)"
    using e1 s(3) e3 e4 by blast
qed

theorem sale_info_split_witness:
  "strip ''Sold 12 Jan 2023'' = ''Sold '' @ ''12 Jan 2023'' @ []
   \<and> is_date ''12 Jan 2023''
   \<and> parse_sale_info \<lparr>sale_info_elem = Some ''Sold 12 Jan 2023'', price_elem = None,
        address_elem = None, features_wrapper = None, sales_page_elem = None\<rparr>
       = (Some ''Sold'', Some ''12 Jan 2023'')
   \<and> (\<exists>pre d post. strip ''Sold 12 Jan 2023'' = pre @ d @ post \<and> is_date d
        \<and> parse_sale_info \<lparr>sale_info_elem = Some ''Sold 12 Jan 2023'', price_elem = None,
             address_elem = None, features_wrapper = None, sales_page_elem = None\<rparr>
            = (Some (strip (replace d [] (strip ''Sold 12 Jan 2023''))), Some d))"
proof -
  let ?html = "\<lparr>sale_info_elem = Some ''Sold 12 Jan 2023'', price_elem = None,
        address_elem = None, features_wrapper = None, sales_page_elem = None\<rparr>"
  have st: "strip ''Sold 12 Jan 2023'' = ''Sold '' @ ''12 Jan 2023'' @ []"
    by (simp add: strip_def isspace_char_def)
  have dt: "is_date ''12 Jan 2023''"
    unfolding is_date_def
    by (rule exI [of _ "''12''"], rule exI [of _ "''Jan''"], rule exI [of _ "''2023''"])
      (simp add: isdecimal_char_def isword_char_def)
  have ev: "parse_sale_info ?html = (Some ''Sold'', Some ''12 Jan 2023'')"
    by code_simp
  have hyp: "sale_info_elem ?html = Some ''Sold 12 Jan 2023''
      \<and> (\<exists>pre d post. strip ''Sold 12 Jan 2023'' = pre @ d @ post \<and> is_date d)"
    using st dt by (intro conjI exI [of _ "''Sold ''"] exI [of _ "''12 Jan 2023''"] exI [of _ "[]"]) simp_all
  note split = sale_info_split [where html = ?html, THEN conjunct2, THEN conjunct1, THEN spec,
      THEN mp, OF hyp]
  have "\<exists>pre d post. strip ''Sold 12 Jan 2023'' = pre @ d @ post \<and> is_date d
        \<and> parse_sale_info ?html = (Some (strip (replace d [] (strip ''Sold 12 Jan 2023''))), Some d)"
    using split by blast
  then show ?thesis
    using st dt ev by blast
qed

text \<open>
  Claim C7 as stated fails: in the text \<^verbatim>\<open>Sold 12 abc 2023\<close> the three characters
  \<^verbatim>\<open>abc\<close> are no month abbreviation, so the text has no date of the claimed form, and
  the sale date is \<^verbatim>\<open>12 abc 2023\<close> where the claim gives null and the full text as the
  sale type.
\<close>

theorem word_characters_taken_as_month:
  "parse_sale_info \<lparr>sale_info_elem = Some ''Sold 12 abc 2023'', price_elem = None,
        address_elem = None, features_wrapper = None, sales_page_elem = None\<rparr>
     = (Some ''Sold'', Some ''12 abc 2023'')
   \<and> ''abc'' \<notin> set month_abbreviations"
  by code_simp

section \<open>The examples of the specification\<close>

lemma price_examples:
  "parse_price \<lparr>sale_info_elem = None, price_elem = Some ''$1,250,000'', address_elem = None,
                features_wrapper = None, sales_page_elem = None\<rparr> = Inr (Some 1250000)"
  "parse_price \<lparr>sale_info_elem = None, price_elem = Some ''Contact Agent'', address_elem = None,
                features_wrapper = None, sales_page_elem = None\<rparr> = Inr None"
  by code_simp+

lemma postcode_examples:
  "parse_address ''12 Smith St, Ultimo 2007'' = (''12 Smith St, Ultimo 2007'', Some ''2007'')"
  "parse_address (''12 Smith St, Ultimo 2007'' @ [CHR 0x0A])
     = (''12 Smith St, Ultimo 2007'' @ [CHR 0x0A], Some ''2007'')"
  "parse_address ''12 Smith St, Ultimo'' = (''12 Smith St, Ultimo'', None)"
  by code_simp+

lemma feature_examples:
  "feature_loop [''3 Beds'', ''2 Bath'', ''1 Parking'', ''120m'' @ [CHR 0xB2], ''Pool'']
     (None, None, None, None) = Inr (Some 3, Some 2, Some 1, Some 120)"
  "feature_step (CHR 0xB2 # '' Beds'') (None, None, None, None) = Inl (ValueError [CHR 0xB2])"
  by code_simp+

end
